theory Spec2Isabelle
  imports Complex_Main "HOL-Library.Multiset"
begin

section \<open>The randwave~ external: wavetable generation and playback\<close>

text \<open>
  The development follows \<^verbatim>\<open>src/randwave~.c\<close>. Arrays are lists, the object
  structure is a record that every operation returns updated, and the values of
  \<^verbatim>\<open>rand()\<close> are an explicit sequence that the operations consume in order.
  Undefined behaviour of the C program (an access outside an array, a conversion of
  a float outside the range of \<^verbatim>\<open>int\<close>, an array of non-positive size) is a
  \<open>fault\<close> result; a loop that does not stop is the result \<open>None\<close>.

  A value of type \<^verbatim>\<open>int\<close> is an integer. The values that the program converts
  from a float are checked against the range of a 32-bit \<^verbatim>\<open>int\<close>; the size of the
  stack, which bounds the array \<^verbatim>\<open>all_samples\<close>, is not modelled.
\<close>

subsection \<open>Floating-point values\<close>

text \<open>
  A C \<^verbatim>\<open>float\<close> or \<^verbatim>\<open>double\<close> is a finite number, an infinity or a NaN. The
  special values follow IEEE 754: \<open>0/0\<close>, \<open>\<infinity> - \<infinity>\<close> and \<open>0 * \<infinity>\<close> are NaN,
  every operation on a NaN gives NaN, every comparison with a NaN is false.

  The finite result of an operation is rounded to the format in which C evaluates
  the operation, binary32 for \<^verbatim>\<open>float\<close> and binary64 for \<^verbatim>\<open>double\<close>: to the
  nearest value of the format, a tie to the one with the even significand, and to
  an infinity when the rounded magnitude reaches \<open>2 ^ (emax + 1)\<close>. The sign of
  zero is not modelled, and \<^verbatim>\<open>sin\<close> and \<^verbatim>\<open>tan\<close> are taken as correctly rounded.
\<close>

datatype cfloat = Fin real | PInf | MInf | NaN

datatype format = Single | Double

fun precision :: "format \<Rightarrow> int" where
  "precision Single = 24"
| "precision Double = 53"

fun emax :: "format \<Rightarrow> int" where
  "emax Single = 127"
| "emax Double = 1023"

text \<open>The exponent of the smallest positive value of the format.\<close>

definition emin_ulp :: "format \<Rightarrow> int" where
  "emin_ulp fmt = 2 - emax fmt - precision fmt"

text \<open>The nearest integer, a tie to the even one.\<close>

definition rne :: "real \<Rightarrow> int" where
  "rne x =
     (let f = \<lfloor>x\<rfloor>; d = x - of_int f
      in if d < 1 / 2 then f else if 1 / 2 < d then f + 1
         else if even f then f else f + 1)"

text \<open>The exponent of the unit in the last place of the values next to \<open>r\<close>.\<close>

definition ulp_exponent :: "format \<Rightarrow> real \<Rightarrow> int" where
  "ulp_exponent fmt r = max (emin_ulp fmt) (\<lfloor>log 2 \<bar>r\<bar>\<rfloor> - (precision fmt - 1))"

definition round_real :: "format \<Rightarrow> real \<Rightarrow> real" where
  "round_real fmt r =
     (if r = 0 then 0
      else of_int (rne (r / 2 powr of_int (ulp_exponent fmt r))) *
           2 powr of_int (ulp_exponent fmt r))"

definition fround :: "format \<Rightarrow> real \<Rightarrow> cfloat" where
  "fround fmt r =
     (let v = round_real fmt r
      in if 2 powr of_int (emax fmt + 1) \<le> \<bar>v\<bar> then (if 0 < v then PInf else MInf)
         else Fin v)"

fun fneg :: "cfloat \<Rightarrow> cfloat" where
  "fneg (Fin a) = Fin (- a)"
| "fneg PInf = MInf"
| "fneg MInf = PInf"
| "fneg NaN = NaN"

fun fadd :: "format \<Rightarrow> cfloat \<Rightarrow> cfloat \<Rightarrow> cfloat" where
  "fadd fmt NaN _ = NaN"
| "fadd fmt _ NaN = NaN"
| "fadd fmt (Fin a) (Fin b) = fround fmt (a + b)"
| "fadd fmt PInf MInf = NaN"
| "fadd fmt MInf PInf = NaN"
| "fadd fmt PInf _ = PInf"
| "fadd fmt MInf _ = MInf"
| "fadd fmt (Fin a) PInf = PInf"
| "fadd fmt (Fin a) MInf = MInf"

definition fsub :: "format \<Rightarrow> cfloat \<Rightarrow> cfloat \<Rightarrow> cfloat" where
  "fsub fmt a b = fadd fmt a (fneg b)"

fun fmul :: "format \<Rightarrow> cfloat \<Rightarrow> cfloat \<Rightarrow> cfloat" where
  "fmul fmt NaN _ = NaN"
| "fmul fmt _ NaN = NaN"
| "fmul fmt (Fin a) (Fin b) = fround fmt (a * b)"
| "fmul fmt (Fin a) PInf = (if a = 0 then NaN else if 0 < a then PInf else MInf)"
| "fmul fmt (Fin a) MInf = (if a = 0 then NaN else if 0 < a then MInf else PInf)"
| "fmul fmt PInf (Fin b) = (if b = 0 then NaN else if 0 < b then PInf else MInf)"
| "fmul fmt MInf (Fin b) = (if b = 0 then NaN else if 0 < b then MInf else PInf)"
| "fmul fmt PInf PInf = PInf"
| "fmul fmt PInf MInf = MInf"
| "fmul fmt MInf PInf = MInf"
| "fmul fmt MInf MInf = PInf"

fun fdiv :: "format \<Rightarrow> cfloat \<Rightarrow> cfloat \<Rightarrow> cfloat" where
  "fdiv fmt NaN _ = NaN"
| "fdiv fmt _ NaN = NaN"
| "fdiv fmt (Fin a) (Fin b) =
     (if b = 0 then (if a = 0 then NaN else if 0 < a then PInf else MInf)
      else fround fmt (a / b))"
| "fdiv fmt (Fin a) PInf = Fin 0"
| "fdiv fmt (Fin a) MInf = Fin 0"
| "fdiv fmt PInf (Fin b) = (if 0 \<le> b then PInf else MInf)"
| "fdiv fmt MInf (Fin b) = (if 0 \<le> b then MInf else PInf)"
| "fdiv fmt _ _ = NaN"

fun fsin :: "format \<Rightarrow> cfloat \<Rightarrow> cfloat" where
  "fsin fmt (Fin a) = fround fmt (sin a)"
| "fsin fmt _ = NaN"

text \<open>
  The tangent of a finite float is finite; at a pole of the real tangent, which no
  float is, the model takes the infinity.
\<close>

fun ftan :: "format \<Rightarrow> cfloat \<Rightarrow> cfloat" where
  "ftan fmt (Fin a) = (if cos a = 0 then PInf else fround fmt (tan a))"
| "ftan fmt _ = NaN"

text \<open>\<^verbatim>\<open>ceil\<close>: the result is an integer of the format, no rounding occurs.\<close>

fun fceil :: "cfloat \<Rightarrow> cfloat" where
  "fceil (Fin a) = Fin (of_int \<lceil>a\<rceil>)"
| "fceil x = x"

fun flt :: "cfloat \<Rightarrow> cfloat \<Rightarrow> bool" where
  "flt NaN _ = False"
| "flt _ NaN = False"
| "flt (Fin a) (Fin b) = (a < b)"
| "flt PInf _ = False"
| "flt _ MInf = False"
| "flt MInf _ = True"
| "flt (Fin a) PInf = True"

definition fgt :: "cfloat \<Rightarrow> cfloat \<Rightarrow> bool" where
  "fgt a b = flt b a"

fun fle :: "cfloat \<Rightarrow> cfloat \<Rightarrow> bool" where
  "fle NaN _ = False"
| "fle _ NaN = False"
| "fle (Fin a) (Fin b) = (a \<le> b)"
| "fle MInf _ = True"
| "fle _ PInf = True"
| "fle _ _ = False"

text \<open>The conversions of an \<^verbatim>\<open>int\<close> to \<^verbatim>\<open>float\<close> and to \<^verbatim>\<open>double\<close> round, the
  first from \<open>2 ^ 24\<close> on. A \<^verbatim>\<open>float\<close> is a \<^verbatim>\<open>double\<close> as it is; a \<^verbatim>\<open>double\<close>
  stored in a \<^verbatim>\<open>float\<close> is rounded.\<close>

definition float_of_int :: "int \<Rightarrow> cfloat" where
  "float_of_int i = fround Single (of_int i)"

definition double_of_int :: "int \<Rightarrow> cfloat" where
  "double_of_int i = fround Double (of_int i)"

fun float_of_double :: "cfloat \<Rightarrow> cfloat" where
  "float_of_double (Fin a) = fround Single a"
| "float_of_double x = x"

text \<open>\<^verbatim>\<open>M_PI\<close> is the \<^verbatim>\<open>double\<close> nearest to \<open>\<pi>\<close>, \<^verbatim>\<open>0x1.921fb54442d18p+1\<close>.\<close>

definition M_PI :: cfloat where
  "M_PI = Fin (884279719003555 / 2 ^ 48)"

datatype fault = OutOfBounds | BadAlloc | BadArraySize | FloatToInt

definition INT_MIN :: int where
  "INT_MIN = - 2147483648"

definition INT_MAX :: int where
  "INT_MAX = 2147483647"

text \<open>The conversion of a float to \<^verbatim>\<open>int\<close> drops the fraction; it is undefined
  for an infinity, for a NaN, and when the integer is not in the range of \<^verbatim>\<open>int\<close>.\<close>

definition c_trunc :: "real \<Rightarrow> int" where
  "c_trunc r = (if 0 \<le> r then \<lfloor>r\<rfloor> else \<lceil>r\<rceil>)"

fun int_of_float :: "cfloat \<Rightarrow> fault + int" where
  "int_of_float (Fin a) =
     (if INT_MIN \<le> c_trunc a \<and> c_trunc a \<le> INT_MAX then Inr (c_trunc a)
      else Inl FloatToInt)"
| "int_of_float _ = Inl FloatToInt"

text \<open>The remainder of C: the sign of the dividend.\<close>

definition c_rem :: "int \<Rightarrow> int \<Rightarrow> int" where
  "c_rem a b = sgn a * (\<bar>a\<bar> mod \<bar>b\<bar>)"

subsection \<open>The cardinal function\<close>

text \<open>The parameter \<open>x\<close> is a \<^verbatim>\<open>float\<close>; \<^verbatim>\<open>M_PI\<close> makes every operation of the
  body one on \<^verbatim>\<open>double\<close>, and the result is returned as a \<^verbatim>\<open>float\<close>.\<close>

definition trig_cardinal :: "cfloat \<Rightarrow> int \<Rightarrow> cfloat" where
  "trig_cardinal x N =
     (if N = 0 then Fin 1
      else if c_rem N 2 = 1 then
        float_of_double
          (fdiv Double
             (fsin Double (fdiv Double (fmul Double (fmul Double (double_of_int N) M_PI) x)
                                       (Fin 2)))
             (fmul Double (double_of_int N)
                (fsin Double (fdiv Double (fmul Double M_PI x) (Fin 2)))))
      else
        float_of_double
          (fdiv Double
             (fsin Double (fdiv Double (fmul Double (fmul Double (double_of_int N) M_PI) x)
                                       (Fin 2)))
             (fmul Double (double_of_int N)
                (ftan Double (fdiv Double (fmul Double M_PI x) (Fin 2))))))"

subsection \<open>The object\<close>

text \<open>
  The fields of \<^verbatim>\<open>t_randwave\<close> that the program reads. A pointer to an array is the
  list of the array's elements; the null pointer is the empty list, every access to
  which is out of bounds.
\<close>

record sample_amplitude_pair =
  sample :: int
  amplitude :: cfloat

record t_randwave =
  points :: "sample_amplitude_pair list"
  num_points :: int
  wavetable :: "cfloat list"
  wavetable_size :: int
  phase :: int
  generated :: bool

definition DEFAULT_WAVETABLE_SIZE :: int where
  "DEFAULT_WAVETABLE_SIZE = 2048"

definition DEFAULT_NUM_INTERP_POINTS :: int where
  "DEFAULT_NUM_INTERP_POINTS = 4"

definition randwave_new :: t_randwave where
  "randwave_new =
     \<lparr>points = [], num_points = 0, wavetable = [], wavetable_size = 2048, phase = 0,
      generated = False\<rparr>"

text \<open>What \<^verbatim>\<open>post\<close> and \<^verbatim>\<open>pd_error\<close> print, in order: the two diagnostics carry
  the default they announce, a point line carries the index and the pair.\<close>

datatype message =
  Generating
  | Invalid_sample_count int
  | Invalid_num_points int
  | Point int int cfloat
  | Waveform_generated

subsection \<open>The interpolator\<close>

text \<open>\<^verbatim>\<open>((float) i / (float) wavetable_size) * (2 * M_PI)\<close>, stored in a
  \<^verbatim>\<open>float\<close>: the quotient is a \<^verbatim>\<open>float\<close>, the product a \<^verbatim>\<open>double\<close>.\<close>

definition angle :: "int \<Rightarrow> int \<Rightarrow> cfloat" where
  "angle i wsize =
     float_of_double
       (fmul Double (fdiv Single (float_of_int i) (float_of_int wsize))
          (fmul Double (Fin 2) M_PI))"

text \<open>The inner loop of \<^verbatim>\<open>trig_interp\<close>: the sum over the points, from 0.\<close>

definition interp_sum :: "int \<Rightarrow> int \<Rightarrow> sample_amplitude_pair list \<Rightarrow> int \<Rightarrow> cfloat" where
  "interp_sum i wsize pts npoints =
     fold (\<lambda>k acc. fadd Single acc (fmul Single (amplitude (pts ! k))
              (trig_cardinal (fsub Single (angle i wsize)
                  (angle (sample (pts ! k)) wsize)) npoints)))
       [0..<nat npoints] (Fin 0)"

definition hard_limit :: "cfloat \<Rightarrow> cfloat" where
  "hard_limit v =
     (if fgt v (Fin 1) then Fin 1 else if flt v (Fin (- 1)) then Fin (- 1) else v)"

text \<open>The loops read \<open>npoints\<close> points and write \<open>wsize\<close> slots: an array
  shorter than that is accessed out of bounds.\<close>

definition trig_interp ::
  "cfloat list \<Rightarrow> int \<Rightarrow> sample_amplitude_pair list \<Rightarrow> int \<Rightarrow> fault + cfloat list" where
  "trig_interp wt wsize pts npoints =
     (if int (length wt) < wsize then Inl OutOfBounds
      else if 0 < wsize \<and> int (length pts) < npoints then Inl OutOfBounds
      else Inr (fold (\<lambda>i w. w[i := hard_limit (interp_sum (int i) wsize pts npoints)])
                  [0..<nat wsize] wt))"

subsection \<open>The random sampler\<close>

text \<open>
  \<^verbatim>\<open>rand()\<close> returns a value between 0 and \<^verbatim>\<open>RAND_MAX\<close>. The values it will return
  are a sequence \<open>rng\<close>; a counter says which one is next. \<^verbatim>\<open>RAND_MAX\<close> is the
  constant of the C library, here the one of glibc.
\<close>

definition RAND_MAX :: nat where
  "RAND_MAX = 2147483647"

text \<open>\<^verbatim>\<open>((float) rand() / (float) RAND_MAX) * 2 - 1\<close>\<close>

definition random_amplitude :: "nat \<Rightarrow> cfloat" where
  "random_amplitude r =
     fsub Single
       (fmul Single (fdiv Single (float_of_int (int r)) (float_of_int (int RAND_MAX)))
          (Fin 2))
       (Fin 1)"

definition swap :: "int list \<Rightarrow> nat \<Rightarrow> nat \<Rightarrow> int list" where
  "swap arr a b = (let temp = arr ! a in (arr[a := arr ! b])[b := temp])"

text \<open>\<^verbatim>\<open>fill\<close> and \<^verbatim>\<open>shuffle\<close> are called on an array of \<open>n\<close> elements, and every
  index they use is below \<open>n\<close>.\<close>

definition fill :: "int list \<Rightarrow> int \<Rightarrow> int list" where
  "fill arr n = fold (\<lambda>i a. a[i := int i + 1]) [0..<nat n] arr"

text \<open>The loop of \<^verbatim>\<open>shuffle\<close> from index \<open>i\<close> down to 1.\<close>

fun shuffle_from :: "nat \<Rightarrow> int list \<Rightarrow> (nat \<Rightarrow> nat) \<Rightarrow> nat \<Rightarrow> int list \<times> nat" where
  "shuffle_from 0 arr rng c = (arr, c)"
| "shuffle_from (Suc i) arr rng c =
     (let j = rng c mod (Suc i + 1) in shuffle_from i (swap arr j (Suc i)) rng (Suc c))"

definition shuffle :: "int list \<Rightarrow> int \<Rightarrow> (nat \<Rightarrow> nat) \<Rightarrow> nat \<Rightarrow> int list \<times> nat" where
  "shuffle arr n rng c = shuffle_from (nat (n - 1)) arr rng c"

definition int_qsort_compar :: "int \<Rightarrow> int \<Rightarrow> int" where
  "int_qsort_compar l r = l - r"

text \<open>\<^verbatim>\<open>qsort\<close> of the C library orders the first \<open>nmemb\<close> elements by the comparison
  function; it is modelled by an insertion sort with that function.\<close>

fun qsort_insert :: "(int \<Rightarrow> int \<Rightarrow> int) \<Rightarrow> int \<Rightarrow> int list \<Rightarrow> int list" where
  "qsort_insert compar v [] = [v]"
| "qsort_insert compar v (y # ys) =
     (if compar v y \<le> 0 then v # y # ys else y # qsort_insert compar v ys)"

definition qsort :: "int list \<Rightarrow> nat \<Rightarrow> (int \<Rightarrow> int \<Rightarrow> int) \<Rightarrow> int list" where
  "qsort base nmemb compar =
     foldr (qsort_insert compar) (take nmemb base) [] @ drop nmemb base"

text \<open>The loop over the interior points: point \<open>i\<close> takes the sample
  \<open>all_samples[i - 1]\<close> and the next random amplitude.\<close>

definition fill_points ::
  "sample_amplitude_pair list \<Rightarrow> int \<Rightarrow> int list \<Rightarrow> (nat \<Rightarrow> nat) \<Rightarrow> nat
     \<Rightarrow> sample_amplitude_pair list \<times> nat" where
  "fill_points pts npoints all_samples rng c =
     fold (\<lambda>i (p, c). (p[i := \<lparr>sample = all_samples ! (i - 1),
                                amplitude = random_amplitude (rng c)\<rparr>], Suc c))
       [1..<nat (npoints - 1)] (pts, c)"

definition point_messages :: "sample_amplitude_pair list \<Rightarrow> int \<Rightarrow> message list" where
  "point_messages pts npoints =
     map (\<lambda>i. Point (int i) (sample (pts ! i)) (amplitude (pts ! i))) [0..<nat npoints]"

text \<open>
  The sampler, lines 137 to 158 of the source: the array of points is allocated, the
  two end points are written, and the interior points take the first
  \<open>num_points - 2\<close> values of the shuffled samples, in ascending order. It faults
  where the C program has no defined behaviour:
  \<^item> \<^verbatim>\<open>getbytes\<close> of a negative count does not allocate (\<open>BadAlloc\<close>);
  \<^item> the writes of the two end points need \<open>num_points \<ge> 1\<close>;
  \<^item> the array \<^verbatim>\<open>all_samples\<close> has \<open>wavetable_size - 2\<close> elements, which must be
    positive;
  \<^item> \<^verbatim>\<open>qsort\<close> is given \<open>num_points - 2\<close> elements of it, which must exist.
\<close>

definition control_points ::
  "int \<Rightarrow> int \<Rightarrow> (nat \<Rightarrow> nat) \<Rightarrow> fault + sample_amplitude_pair list" where
  "control_points wsize npoints rng =
     (if npoints < 0 then Inl BadAlloc
      else if npoints < 1 then Inl OutOfBounds
      else
       (let pts0 = replicate (nat npoints) \<lparr>sample = 0, amplitude = Fin 0\<rparr>;
            pts1 = pts0[0 := \<lparr>sample = 0, amplitude = Fin 0\<rparr>];
            pts2 = pts1[nat (npoints - 1) := \<lparr>sample = wsize - 1, amplitude = Fin 0\<rparr>]
        in if wsize - 2 \<le> 0 then Inl BadArraySize
           else
            (let all0 = replicate (nat (wsize - 2)) 0;
                 all1 = fill all0 (wsize - 2);
                 (all2, c) = shuffle all1 (wsize - 2) rng 0
             in if npoints - 2 < 0 \<or> wsize - 2 < npoints - 2 then Inl OutOfBounds
                else
                 (let all3 = qsort all2 (nat (npoints - 2)) int_qsort_compar;
                      (pts3, c') = fill_points pts2 npoints all3 rng c
                  in Inr pts3))))"

subsection \<open>The generator\<close>

text \<open>
  \<^verbatim>\<open>randwave_generate\<close>. The two arguments are floats (\<^verbatim>\<open>t_floatarg\<close>). The result
  is the object and the messages printed, or a fault. The test of the number of
  points compares with the argument \<^verbatim>\<open>wavetable_size\<close>, not with the field, and the
  assignment of the default is followed by the unconditional assignment of
  \<open>num_interp_points + 2\<close>, so that only the message remains of it.
\<close>

definition randwave_generate ::
  "t_randwave \<Rightarrow> cfloat \<Rightarrow> cfloat \<Rightarrow> (nat \<Rightarrow> nat) \<Rightarrow> fault + t_randwave \<times> message list" where
  "randwave_generate x wavetable_size_arg num_interp_points rng =
     (let log0 = [Generating];
          negative = flt wavetable_size_arg (Fin 0);
          log1 = (if negative then log0 @ [Invalid_sample_count DEFAULT_WAVETABLE_SIZE]
                  else log0)
      in case (if negative then Inr DEFAULT_WAVETABLE_SIZE
               else int_of_float wavetable_size_arg) of
        Inl e \<Rightarrow> Inl e
      | Inr wsize \<Rightarrow>
         (let wt0 = replicate (nat wsize) (Fin 0);
              invalid = (fle num_interp_points (Fin 0) \<or>
                         fgt num_interp_points (fsub Single wavetable_size_arg (Fin 2)));
              log2 = (if invalid then log1 @ [Invalid_num_points DEFAULT_NUM_INTERP_POINTS]
                      else log1)
          in case int_of_float (fadd Single num_interp_points (Fin 2)) of
            Inl e \<Rightarrow> Inl e
          | Inr npoints \<Rightarrow>
             (case control_points wsize npoints rng of
                Inl e \<Rightarrow> Inl e
              | Inr pts \<Rightarrow>
                 (let log3 = log2 @ point_messages pts npoints
                  in case trig_interp wt0 wsize pts npoints of
                       Inl e \<Rightarrow> Inl e
                     | Inr wt \<Rightarrow>
                         Inr (x\<lparr>points := pts, num_points := npoints,
                                wavetable := wt, wavetable_size := wsize,
                                generated := True\<rparr>,
                              log3 @ [Waveform_generated])))))"

subsection \<open>The playback engine\<close>

text \<open>The two loops that bring the index back into the table. They are the
  source's loops, which stop only when their test fails.\<close>

partial_function (option) wrap_down :: "int \<Rightarrow> int \<Rightarrow> int option" where
  "wrap_down i wsize = (if wsize \<le> i then wrap_down (i - wsize) wsize else Some i)"

partial_function (option) wrap_up :: "int \<Rightarrow> int \<Rightarrow> int option" where
  "wrap_up i wsize = (if i < 0 then wrap_up (i + wsize) wsize else Some i)"

declare wrap_down.simps [code]
declare wrap_up.simps [code]

text \<open>One advance of the index: \<^verbatim>\<open>i += sample_increment\<close> and the two loops.\<close>

definition advance :: "int \<Rightarrow> int \<Rightarrow> int \<Rightarrow> int option" where
  "advance i increment wsize =
     (case wrap_down (i + increment) wsize of
        None \<Rightarrow> None
      | Some i1 \<Rightarrow> wrap_up i1 wsize)"

text \<open>\<^verbatim>\<open>ceil((float) x->wavetable_size / (float) n)\<close>, converted to \<^verbatim>\<open>int\<close>: the
  two conversions and the quotient are rounded to \<^verbatim>\<open>float\<close>.\<close>

definition base_sample_increment :: "int \<Rightarrow> int \<Rightarrow> fault + int" where
  "base_sample_increment wsize n =
     int_of_float (fceil (fdiv Single (float_of_int wsize) (float_of_int n)))"

text \<open>The factor read from the frequency inlet is commented out in the source:
  the increment is \<open>1 * base_sample_increment\<close>.\<close>

definition sample_increment :: "cfloat list \<Rightarrow> int \<Rightarrow> int" where
  "sample_increment frequency base = 1 * base"

text \<open>The loop \<^verbatim>\<open>while (n--)\<close>, for the \<open>n\<close> samples left: the output so far and
  the index are its state.\<close>

fun perform_loop ::
  "nat \<Rightarrow> cfloat list \<Rightarrow> cfloat list \<Rightarrow> int \<Rightarrow> int \<Rightarrow> int \<Rightarrow> cfloat list
     \<Rightarrow> (fault + cfloat list \<times> int) option" where
  "perform_loop 0 frequency wt wsize base i output = Some (Inr (output, i))"
| "perform_loop (Suc n) frequency wt wsize base i output =
     (if i < 0 \<or> int (length wt) \<le> i then Some (Inl OutOfBounds)
      else case advance i (sample_increment frequency base) wsize of
             None \<Rightarrow> None
           | Some i' \<Rightarrow> perform_loop n frequency wt wsize base i' (output @ [wt ! nat i]))"

text \<open>\<^verbatim>\<open>randwave_perform\<close>: the block wsize \<open>n\<close> is the length of the output buffer,
  so a negative one writes outside it.\<close>

definition randwave_perform ::
  "t_randwave \<Rightarrow> cfloat list \<Rightarrow> int \<Rightarrow> (fault + cfloat list \<times> t_randwave) option" where
  "randwave_perform x frequency n =
     (case base_sample_increment (wavetable_size x) n of
        Inl e \<Rightarrow> Some (Inl e)
      | Inr base \<Rightarrow>
          if n < 0 then Some (Inl OutOfBounds)
          else case perform_loop (nat n) frequency (wavetable x) (wavetable_size x) base
                      (phase x) [] of
                 None \<Rightarrow> None
               | Some (Inl e) \<Rightarrow> Some (Inl e)
               | Some (Inr (output, i)) \<Rightarrow> Some (Inr (output, x\<lparr>phase := i\<rparr>)))"

section \<open>Properties\<close>

subsection \<open>Rounding\<close>

lemma rne_of_int [simp]: "rne (of_int k) = k"
  by (simp add: rne_def)

lemma rne_Ints: "x \<in> \<int> \<Longrightarrow> of_int (rne x) = x"
  by (auto elim!: Ints_cases)

lemma rne_le: "x \<le> of_int m \<Longrightarrow> rne x \<le> m"
proof -
  assume a: "x \<le> of_int m"
  then have f: "\<lfloor>x\<rfloor> \<le> m" by (simp add: floor_le_iff)
  show ?thesis
  proof (cases "x = of_int \<lfloor>x\<rfloor>")
    case True
    then have "rne x = \<lfloor>x\<rfloor>" by (metis rne_of_int)
    with f show ?thesis by simp
  next
    case False
    moreover have "of_int \<lfloor>x\<rfloor> \<le> x" by simp
    ultimately have "of_int \<lfloor>x\<rfloor> < x" by linarith
    with a have "\<lfloor>x\<rfloor> < m" by linarith
    moreover have "rne x \<le> \<lfloor>x\<rfloor> + 1" by (simp add: rne_def Let_def)
    ultimately show ?thesis by linarith
  qed
qed

lemma rne_ge: "of_int m \<le> x \<Longrightarrow> m \<le> rne x"
proof -
  assume "of_int m \<le> x"
  then have "m \<le> \<lfloor>x\<rfloor>" by (simp add: le_floor_iff)
  moreover have "\<lfloor>x\<rfloor> \<le> rne x" by (simp add: rne_def Let_def)
  ultimately show ?thesis by linarith
qed

lemma rne_gt: "of_int m + 1 / 2 < x \<Longrightarrow> m + 1 \<le> rne x"
proof -
  assume a: "of_int m + 1 / 2 < x"
  then have m: "m \<le> \<lfloor>x\<rfloor>" by (simp add: le_floor_iff)
  show ?thesis
  proof (cases "m = \<lfloor>x\<rfloor>")
    case True
    with a have "1 / 2 < x - of_int \<lfloor>x\<rfloor>" by simp
    then show ?thesis using True by (simp add: rne_def Let_def)
  next
    case False
    with m have "m + 1 \<le> \<lfloor>x\<rfloor>" by simp
    moreover have "\<lfloor>x\<rfloor> \<le> rne x" by (simp add: rne_def Let_def)
    ultimately show ?thesis by linarith
  qed
qed

lemma floor_log2_bounds:
  assumes "r \<noteq> 0"
  shows "2 powr of_int \<lfloor>log 2 \<bar>r\<bar>\<rfloor> \<le> \<bar>r\<bar>" and "\<bar>r\<bar> < 2 powr (of_int \<lfloor>log 2 \<bar>r\<bar>\<rfloor> + 1)"
proof -
  have pos: "0 < \<bar>r\<bar>" using assms by simp
  have "of_int \<lfloor>log 2 \<bar>r\<bar>\<rfloor> \<le> log 2 \<bar>r\<bar>" by simp
  then show "2 powr of_int \<lfloor>log 2 \<bar>r\<bar>\<rfloor> \<le> \<bar>r\<bar>"
    using le_log_iff [of 2 "\<bar>r\<bar>" "of_int \<lfloor>log 2 \<bar>r\<bar>\<rfloor>"] pos by simp
  have "log 2 \<bar>r\<bar> < of_int \<lfloor>log 2 \<bar>r\<bar>\<rfloor> + 1" by linarith
  then show "\<bar>r\<bar> < 2 powr (of_int \<lfloor>log 2 \<bar>r\<bar>\<rfloor> + 1)"
    using log_less_iff [of 2 "\<bar>r\<bar>" "of_int \<lfloor>log 2 \<bar>r\<bar>\<rfloor> + 1"] pos by simp
qed

lemma floor_log2_less:
  assumes "r \<noteq> 0" and "\<bar>r\<bar> < 2 powr of_int j"
  shows "\<lfloor>log 2 \<bar>r\<bar>\<rfloor> < j"
proof -
  have "(2::real) powr of_int \<lfloor>log 2 \<bar>r\<bar>\<rfloor> < 2 powr of_int j"
    using floor_log2_bounds(1) [OF assms(1)] assms(2) by linarith
  then show ?thesis by simp
qed

lemma floor_log2_le:
  assumes "r \<noteq> 0" and "\<bar>r\<bar> \<le> 2 powr of_int j"
  shows "\<lfloor>log 2 \<bar>r\<bar>\<rfloor> \<le> j"
proof -
  have "(2::real) powr of_int \<lfloor>log 2 \<bar>r\<bar>\<rfloor> \<le> 2 powr of_int j"
    using floor_log2_bounds(1) [OF assms(1)] assms(2) by linarith
  then show ?thesis by simp
qed

lemma floor_log2_eq:
  assumes "2 powr of_int j \<le> \<bar>r\<bar>" and "\<bar>r\<bar> < 2 powr (of_int j + 1)"
  shows "\<lfloor>log 2 \<bar>r\<bar>\<rfloor> = j"
proof -
  have pos: "0 < \<bar>r\<bar>" using assms(1) by (smt (verit) powr_gt_zero)
  have "of_int j \<le> log 2 \<bar>r\<bar>"
    using assms(1) pos le_log_iff [of 2 "\<bar>r\<bar>" "of_int j"] by simp
  moreover have "log 2 \<bar>r\<bar> < of_int j + 1"
    using assms(2) pos log_less_iff [of 2 "\<bar>r\<bar>" "of_int j + 1"] by simp
  ultimately show ?thesis by (simp add: floor_unique)
qed

lemma powr_int_Ints: "0 \<le> j \<Longrightarrow> (2::real) powr of_int j \<in> \<int>"
proof -
  assume "0 \<le> j"
  then obtain n where "j = int n" by (rule nonneg_int_cases)
  then have "(2::real) powr of_int j = 2 ^ n"
    by (simp add: powr_realpow)
  then show ?thesis by simp
qed

text \<open>A value \<open>k * 2 ^ j\<close> is a multiple of every unit \<open>2 ^ e\<close> with \<open>e \<le> j\<close>.\<close>

lemma on_grid:
  assumes "e \<le> j"
  shows "of_int k * 2 powr of_int j / 2 powr of_int e \<in> (\<int> :: real set)"
proof -
  have "of_int k * 2 powr of_int j / 2 powr of_int e = (of_int k * 2 powr of_int (j - e) :: real)"
    by (simp add: powr_diff)
  moreover have "(2::real) powr of_int (j - e) \<in> \<int>"
    using assms by (intro powr_int_Ints) simp
  ultimately show ?thesis by (simp add: Ints_mult)
qed


lemma precision_pos: "1 \<le> precision fmt"
  by (cases fmt) simp_all

lemma round_real_on_grid:
  assumes "r / 2 powr of_int (ulp_exponent fmt r) \<in> \<int>"
  shows "round_real fmt r = r"
  using assms by (simp add: round_real_def rne_Ints)

lemma ulp_exponent_le:
  assumes "r \<noteq> 0" and "\<bar>r\<bar> \<le> 2 powr of_int j" and "emin_ulp fmt \<le> j"
  shows "ulp_exponent fmt r \<le> j"
proof -
  have "\<lfloor>log 2 \<bar>r\<bar>\<rfloor> \<le> j" using assms(1,2) by (rule floor_log2_le)
  with precision_pos [of fmt] assms(3) show ?thesis
    by (simp add: ulp_exponent_def)
qed

lemma ulp_exponent_dyadic:
  assumes "k \<noteq> 0" and "\<bar>k\<bar> < 2 ^ nat (precision fmt)" and "emin_ulp fmt \<le> j"
  shows "ulp_exponent fmt (of_int k * 2 powr of_int j) \<le> j"
proof -
  let ?r = "of_int k * 2 powr of_int j :: real"
  have nz: "?r \<noteq> 0" using assms(1) by simp
  have "real_of_int \<bar>k\<bar> < 2 ^ nat (precision fmt)"
    using assms(2) by (metis of_int_less_iff of_int_numeral of_int_power)
  also have "\<dots> = 2 powr of_int (precision fmt)"
    using precision_pos [of fmt] by (simp add: powr_realpow [symmetric])
  finally have "\<bar>?r\<bar> < 2 powr of_int (precision fmt) * 2 powr of_int j"
    by (simp add: abs_mult)
  then have "\<bar>?r\<bar> < 2 powr of_int (precision fmt + j)"
    by (simp add: powr_add)
  with nz have "\<lfloor>log 2 \<bar>?r\<bar>\<rfloor> < precision fmt + j" by (rule floor_log2_less)
  with assms(3) show ?thesis by (simp add: ulp_exponent_def)
qed

lemma round_real_dyadic:
  assumes "\<bar>k\<bar> < 2 ^ nat (precision fmt)" and "emin_ulp fmt \<le> j"
  shows "round_real fmt (of_int k * 2 powr of_int j) = of_int k * 2 powr of_int j"
proof (cases "k = 0")
  case True
  then show ?thesis by (simp add: round_real_def)
next
  case False
  then have "ulp_exponent fmt (of_int k * 2 powr of_int j) \<le> j"
    using assms by (rule ulp_exponent_dyadic)
  then show ?thesis by (intro round_real_on_grid on_grid)
qed

lemma round_real_le:
  assumes "r \<le> m" and "m / 2 powr of_int (ulp_exponent fmt r) \<in> \<int>"
  shows "round_real fmt r \<le> m"
proof (cases "r = 0")
  case True
  with assms(1) show ?thesis by (simp add: round_real_def)
next
  case False
  let ?u = "2 powr of_int (ulp_exponent fmt r) :: real"
  have u: "0 < ?u" by simp
  from assms(2) obtain M where M: "m / ?u = of_int M" by (auto elim: Ints_cases)
  have "r / ?u \<le> of_int M" using assms(1) u M by (metis divide_right_mono less_imp_le)
  then have "rne (r / ?u) \<le> M" by (rule rne_le)
  then have "of_int (rne (r / ?u)) * ?u \<le> of_int M * ?u"
    using u by (simp add: mult_right_mono)
  also have "of_int M * ?u = m" using M u by (simp add: field_simps)
  finally show ?thesis using False by (simp add: round_real_def)
qed

lemma round_real_ge:
  assumes "m \<le> r" and "m / 2 powr of_int (ulp_exponent fmt r) \<in> \<int>"
  shows "m \<le> round_real fmt r"
proof (cases "r = 0")
  case True
  with assms(1) show ?thesis by (simp add: round_real_def)
next
  case False
  let ?u = "2 powr of_int (ulp_exponent fmt r) :: real"
  have u: "0 < ?u" by simp
  from assms(2) obtain M where M: "m / ?u = of_int M" by (auto elim: Ints_cases)
  have "of_int M \<le> r / ?u" using assms(1) u M by (metis divide_right_mono less_imp_le)
  then have "M \<le> rne (r / ?u)" by (rule rne_ge)
  then have "of_int M * ?u \<le> of_int (rne (r / ?u)) * ?u"
    using u by (simp add: mult_right_mono)
  moreover have "of_int M * ?u = m" using M u by (simp add: field_simps)
  ultimately show ?thesis using False by (simp add: round_real_def)
qed

lemma round_real_nonneg: "0 \<le> r \<Longrightarrow> 0 \<le> round_real fmt r"
  by (rule round_real_ge) simp_all

lemma round_real_nonpos: "r \<le> 0 \<Longrightarrow> round_real fmt r \<le> 0"
  by (rule round_real_le) simp_all

lemma round_real_bounded:
  assumes "\<bar>r\<bar> \<le> 2 powr of_int j" and "emin_ulp fmt \<le> j"
  shows "\<bar>round_real fmt r\<bar> \<le> 2 powr of_int j"
proof (cases "r = 0")
  case True
  then show ?thesis by (simp add: round_real_def)
next
  case False
  then have e: "ulp_exponent fmt r \<le> j" using assms by (rule ulp_exponent_le)
  have up: "2 powr of_int j / 2 powr of_int (ulp_exponent fmt r) \<in> (\<int> :: real set)"
    using on_grid [OF e, of 1] by simp
  have down: "- (2 powr of_int j) / 2 powr of_int (ulp_exponent fmt r) \<in> (\<int> :: real set)"
    using on_grid [OF e, of "- 1"] by simp
  have "round_real fmt r \<le> 2 powr of_int j"
    by (rule round_real_le) (use assms(1) up in auto)
  moreover have "- (2 powr of_int j) \<le> round_real fmt r"
    by (rule round_real_ge) (use assms(1) down in auto)
  ultimately show ?thesis by simp
qed

lemma fround_zero [simp]: "fround fmt 0 = Fin 0"
  by (simp add: fround_def round_real_def)

lemma fround_finite:
  assumes "\<bar>r\<bar> \<le> 2 powr of_int j" and "emin_ulp fmt \<le> j" and "j \<le> emax fmt"
  shows "fround fmt r = Fin (round_real fmt r)"
proof -
  have "\<bar>round_real fmt r\<bar> \<le> 2 powr of_int j"
    using assms(1,2) by (rule round_real_bounded)
  also have "(2::real) powr of_int j < 2 powr of_int (emax fmt + 1)"
    using assms(3) by simp
  finally show ?thesis by (simp add: fround_def)
qed

lemma round_real_eval:
  assumes "2 powr of_int L \<le> \<bar>r\<bar>" and "\<bar>r\<bar> < 2 powr (of_int L + 1)"
    and "emin_ulp fmt \<le> L - (precision fmt - 1)"
  shows "round_real fmt r =
    of_int (rne (r / 2 powr of_int (L - (precision fmt - 1)))) *
      2 powr of_int (L - (precision fmt - 1))"
proof -
  have "\<lfloor>log 2 \<bar>r\<bar>\<rfloor> = L" using assms(1,2) by (rule floor_log2_eq)
  then have "ulp_exponent fmt r = L - (precision fmt - 1)"
    using assms(3) by (simp add: ulp_exponent_def)
  moreover have "r \<noteq> 0" using assms(1) by (smt (verit) powr_gt_zero)
  ultimately show ?thesis by (simp add: round_real_def)
qed

lemma fround_int:
  assumes "\<bar>k\<bar> \<le> 2 ^ 24"
  shows "fround fmt (of_int k) = Fin (of_int k)"
proof -
  have r: "round_real fmt (of_int k) = of_int k"
  proof (cases "\<bar>k\<bar> < 2 ^ 24")
    case True
    then have "\<bar>k\<bar> < 2 ^ nat (precision fmt)"
      by (cases fmt) simp_all
    moreover have "emin_ulp fmt \<le> 0" by (cases fmt) (simp_all add: emin_ulp_def)
    ultimately have "round_real fmt (of_int k * 2 powr of_int 0) = of_int k * 2 powr of_int 0"
      by (rule round_real_dyadic)
    then show ?thesis by simp
  next
    case False
    with assms have "\<bar>k\<bar> = 2 ^ 24" by simp
    then have "k = 2 ^ 24 \<or> k = - (2 ^ 24)" by linarith
    then obtain s :: int where s: "\<bar>s\<bar> = 1" and k: "real_of_int k = of_int s * 2 powr of_int 24"
    proof
      assume "k = 2 ^ 24"
      then have "real_of_int k = of_int 1 * 2 powr of_int 24" by simp
      then show ?thesis using that [of 1] by simp
    next
      assume "k = - (2 ^ 24)"
      then have "real_of_int k = of_int (- 1) * 2 powr of_int 24" by simp
      then show ?thesis using that [of "- 1"] by simp
    qed
    have "\<bar>s\<bar> < 2 ^ nat (precision fmt)"
      unfolding s by (cases fmt) simp_all
    moreover have "emin_ulp fmt \<le> 24" by (cases fmt) (simp_all add: emin_ulp_def)
    ultimately have "round_real fmt (of_int s * 2 powr of_int 24) =
        of_int s * 2 powr of_int 24"
      by (rule round_real_dyadic)
    then show ?thesis unfolding k .
  qed
  have "\<bar>real_of_int k\<bar> \<le> 2 powr of_int 24"
    using assms by (simp flip: of_int_abs)
  moreover have "emin_ulp fmt \<le> 24" "24 \<le> emax fmt"
    by (cases fmt; simp add: emin_ulp_def)+
  ultimately have "fround fmt (of_int k) = Fin (round_real fmt (of_int k))"
    by (rule fround_finite)
  with r show ?thesis by simp
qed


lemma ceiling_round_quotient:
  assumes "0 \<le> a" and "a < 2 ^ 24" and "1 \<le> b" and "b \<le> 2 ^ 24"
  shows "\<lceil>round_real Single (of_int a / of_int b)\<rceil> = \<lceil>real_of_int a / of_int b\<rceil>"
proof (cases "a = 0")
  case True
  then show ?thesis by (simp add: round_real_def)
next
  case False
  define q :: real where "q = of_int a / of_int b"
  define m where "m = \<lceil>q\<rceil>"
  define e where "e = ulp_exponent Single q"
  define u :: real where "u = 2 powr of_int e"
  have bpos: "0 < real_of_int b" using assms(3) by simp
  have qpos: "0 < q" using False assms(1) bpos by (simp add: q_def)
  have u: "0 < u" by (simp add: u_def)
  have "q \<le> of_int a" using assms(1,3) by (simp add: q_def field_simps mult_le_cancel_left1)
  also have "real_of_int a < 2 ^ 24" using assms(2) by (metis of_int_less_iff of_int_numeral of_int_power)
  finally have qlt: "\<bar>q\<bar> < 2 powr of_int 24" using qpos by simp
  have L: "\<lfloor>log 2 \<bar>q\<bar>\<rfloor> < 24"
    using qpos qlt by (intro floor_log2_less) simp_all
  have e0: "e \<le> 0"
    using L by (simp add: e_def ulp_exponent_def emin_ulp_def)
  have grid: "real_of_int k / u \<in> \<int>" for k
    using on_grid [OF e0, of k] by (simp add: u_def)
  have upper: "round_real Single q \<le> of_int m"
    by (rule round_real_le) (use grid in \<open>simp_all add: m_def e_def [symmetric] u_def [symmetric]\<close>)
  have half: "u / 2 < 1 / of_int b"
  proof (cases "e = emin_ulp Single")
    case True
    then have "u = 2 powr (- 149)" by (simp add: u_def emin_ulp_def)
    then have "u / 2 < 2 powr (- 24)"
      by (simp add: powr_minus powr_numeral)
    also have "(2::real) powr (- 24) = 1 / 2 ^ 24" by (simp add: powr_minus powr_numeral divide_simps)
    also have "\<dots> \<le> 1 / of_int b"
    proof -
      have "real_of_int b \<le> 2 ^ 24" using assms(4) by (metis of_int_le_iff of_int_numeral of_int_power)
      with bpos show ?thesis by (simp add: frac_le)
    qed
    finally show ?thesis .
  next
    case False
    then have e: "e = \<lfloor>log 2 \<bar>q\<bar>\<rfloor> - 23"
      by (simp add: e_def ulp_exponent_def max_def split: if_splits)
    have "2 powr of_int \<lfloor>log 2 \<bar>q\<bar>\<rfloor> \<le> \<bar>q\<bar>"
      using qpos by (intro floor_log2_bounds) simp
    then have "u \<le> q * 2 powr (- 23)"
      using qpos by (simp add: u_def e powr_diff powr_minus field_simps)
    then have "u / 2 \<le> q * 2 powr (- 24)"
      by (simp add: powr_minus powr_numeral)
    also have "q * 2 powr (- 24) = (of_int a / 2 ^ 24) / of_int b"
      by (simp add: q_def powr_minus powr_numeral divide_simps)
    also have "\<dots> < 1 / of_int b"
    proof -
      have "real_of_int a < 2 ^ 24" using assms(2) by (metis of_int_less_iff of_int_numeral of_int_power)
      then have "real_of_int a / 2 ^ 24 < 1" by simp
      then show ?thesis using bpos by (rule divide_strict_right_mono)
    qed
    finally show ?thesis .
  qed
  have gap: "of_int (m - 1) + 1 / of_int b \<le> q"
  proof -
    have "of_int (m - 1) < q" unfolding m_def by linarith
    then have "of_int (m - 1) * real_of_int b < of_int a"
      using bpos by (simp add: q_def pos_less_divide_eq)
    then have "(m - 1) * b < a" by (metis of_int_less_iff of_int_mult)
    then have "(m - 1) * b + 1 \<le> a" by simp
    then have "of_int (m - 1) * real_of_int b + 1 \<le> of_int a"
      by (metis of_int_le_iff of_int_mult of_int_add of_int_1)
    then have "(of_int (m - 1) * real_of_int b + 1) / of_int b \<le> of_int a / of_int b"
      using bpos by (intro divide_right_mono) simp_all
    moreover have "(of_int (m - 1) * real_of_int b + 1) / of_int b =
        of_int (m - 1) + 1 / of_int b"
      using bpos by (simp add: add_divide_distrib)
    ultimately show ?thesis by (simp only: q_def)
  qed
  from grid [of "m - 1"] obtain K where K: "real_of_int (m - 1) / u = of_int K"
    by (auto elim: Ints_cases)
  have "of_int K + 1 / 2 < q / u"
  proof -
    have "(u / 2) / u < (1 / of_int b) / u"
      using half u by (rule divide_strict_right_mono)
    then have "1 / 2 < (1 / of_int b) / u" using u by simp
    also have "\<dots> \<le> (q - of_int (m - 1)) / u"
      using gap u by (intro divide_right_mono) simp_all
    also have "\<dots> = q / u - of_int K" using K by (simp add: diff_divide_distrib)
    finally have "1 / 2 < q / u - of_int K" .
    then show ?thesis by linarith
  qed
  then have "K + 1 \<le> rne (q / u)" by (rule rne_gt)
  then have a1: "real_of_int (K + 1) * u \<le> of_int (rne (q / u)) * u"
    using u by (simp add: mult_right_mono)
  have a2: "real_of_int (m - 1) + u = of_int (K + 1) * u"
    using K u by (simp add: field_simps)
  have a3: "round_real Single q = of_int (rne (q / u)) * u"
    using qpos by (simp add: round_real_def u_def e_def)
  have "real_of_int m - 1 < of_int (m - 1) + u" using u by simp
  also note a2
  also note a1
  finally have lower: "of_int m - 1 < round_real Single q" unfolding a3 .
  from lower upper have "\<lceil>round_real Single q\<rceil> = m"
    by (intro ceiling_unique) simp_all
  then show ?thesis by (simp add: m_def q_def)
qed


lemma round_single_33554434: "round_real Single 33554434 = 33554432"
proof -
  have "round_real Single 33554434 =
    of_int (rne (33554434 / 2 powr of_int (25 - (precision Single - 1)))) *
      2 powr of_int (25 - (precision Single - 1))"
    by (rule round_real_eval) (simp_all add: emin_ulp_def powr_numeral powr_add)
  also have "\<dots> = of_int (rne (33554434 / 4)) * 4" by (simp add: powr_numeral)
  also have "rne (33554434 / 4) = 8388608" by (simp add: rne_def Let_def)
  finally show ?thesis by simp
qed

lemma round_single_RAND_MAX: "round_real Single 2147483647 = 2147483648"
proof -
  have "round_real Single 2147483647 =
    of_int (rne (2147483647 / 2 powr of_int (30 - (precision Single - 1)))) *
      2 powr of_int (30 - (precision Single - 1))"
    by (rule round_real_eval) (simp_all add: emin_ulp_def powr_numeral powr_add)
  also have "\<dots> = of_int (rne (2147483647 / 128)) * 128" by (simp add: powr_numeral)
  also have "rne (2147483647 / 128) = 16777216" by (simp add: rne_def Let_def)
  finally show ?thesis by simp
qed

subsection \<open>The cardinal function at 0\<close>

lemma fadd_NaN_right [simp]: "fadd fmt x NaN = NaN"
  by (cases x) simp_all

lemma fmul_NaN_right [simp]: "fmul fmt x NaN = NaN"
  by (cases x) simp_all

lemma fdiv_NaN_right [simp]: "fdiv fmt x NaN = NaN"
  by (cases x) simp_all

text \<open>Zero or NaN: what the operations of the cardinal function keep.\<close>

lemma fmul_zero_right: "z = Fin 0 \<or> z = NaN \<Longrightarrow> fmul fmt c z = Fin 0 \<or> fmul fmt c z = NaN"
  by (cases c) auto

lemma fdiv_zero_left:
  "z = Fin 0 \<or> z = NaN \<Longrightarrow> fdiv fmt z (Fin 2) = Fin 0 \<or> fdiv fmt z (Fin 2) = NaN"
  by auto

lemma fsin_zero: "z = Fin 0 \<or> z = NaN \<Longrightarrow> fsin fmt z = Fin 0 \<or> fsin fmt z = NaN"
  by auto

lemma ftan_zero: "z = Fin 0 \<or> z = NaN \<Longrightarrow> ftan fmt z = Fin 0 \<or> ftan fmt z = NaN"
  by auto

lemma fdiv_zero_zero:
  "v = Fin 0 \<or> v = NaN \<Longrightarrow> w = Fin 0 \<or> w = NaN \<Longrightarrow> fdiv fmt v w = NaN"
  by auto

lemma fsub_self: "fsub fmt v v = Fin 0 \<or> fsub fmt v v = NaN"
  by (cases v) (simp_all add: fsub_def)

lemma trig_cardinal_at_zero:
  assumes "N \<noteq> 0" and "z = Fin 0 \<or> z = NaN"
  shows "trig_cardinal z N = NaN"
proof -
  let ?num = "fsin Double (fdiv Double (fmul Double (fmul Double (double_of_int N) M_PI) z)
                                       (Fin 2))"
  let ?arg = "fdiv Double (fmul Double M_PI z) (Fin 2)"
  have num: "?num = Fin 0 \<or> ?num = NaN"
    by (intro fsin_zero fdiv_zero_left fmul_zero_right assms(2))
  have arg: "?arg = Fin 0 \<or> ?arg = NaN"
    by (intro fdiv_zero_left fmul_zero_right assms(2))
  have "fdiv Double ?num (fmul Double (double_of_int N) (fsin Double ?arg)) = NaN"
    by (intro fdiv_zero_zero num fmul_zero_right fsin_zero arg)
  moreover have "fdiv Double ?num (fmul Double (double_of_int N) (ftan Double ?arg)) = NaN"
    by (intro fdiv_zero_zero num fmul_zero_right ftan_zero arg)
  ultimately show ?thesis using assms(1) by (simp add: trig_cardinal_def)
qed

lemma double_of_int_small: "\<bar>k\<bar> \<le> 2 ^ 24 \<Longrightarrow> double_of_int k = Fin (of_int k)"
  by (simp add: double_of_int_def fround_int)

lemma float_of_int_small: "\<bar>k\<bar> \<le> 2 ^ 24 \<Longrightarrow> float_of_int k = Fin (of_int k)"
  by (simp add: float_of_int_def fround_int)

text \<open>
  Claim C2. The claim is that the cardinal function is 1 at 0 for every \<open>N \<ge> 1\<close>.
  The source returns 1 when \<open>N\<close> is 0, not when \<open>x\<close> is 0: at \<open>x = 0\<close> it divides
  0 by 0, for an even \<open>N\<close> (the 6 points of the default waveform) and for an odd one,
  and the result is a NaN.
\<close>

theorem trig_cardinal_zero_divides_by_zero:
  "trig_cardinal (Fin 0) 6 = NaN \<and> trig_cardinal (Fin 0) 3 = NaN \<and>
   fmul Double (double_of_int 6) (ftan Double (fdiv Double (fmul Double M_PI (Fin 0)) (Fin 2)))
     = Fin 0 \<and>
   trig_cardinal (Fin 0) 0 = Fin 1"
proof -
  have "double_of_int 6 = Fin 6"
    using double_of_int_small [of 6] by simp
  then have "fmul Double (double_of_int 6)
      (ftan Double (fdiv Double (fmul Double M_PI (Fin 0)) (Fin 2))) = Fin 0"
    by (simp add: M_PI_def)
  then show ?thesis
    by (simp add: trig_cardinal_at_zero) (simp add: trig_cardinal_def)
qed

subsection \<open>Playback\<close>

lemma wrap_down_pos:
  assumes "0 < wsize"
  shows "wrap_down i wsize = Some (if wsize \<le> i then i mod wsize else i)"
proof (induction "nat i" arbitrary: i rule: less_induct)
  case less
  show ?case
  proof (cases "wsize \<le> i")
    case False
    then show ?thesis by (subst wrap_down.simps) simp
  next
    case True
    with assms have "nat (i - wsize) < nat i" by simp
    then have IH: "wrap_down (i - wsize) wsize =
        Some (if wsize \<le> i - wsize then (i - wsize) mod wsize else i - wsize)"
      by (rule less)
    have same: "(i - wsize) mod wsize = i mod wsize" by simp
    have "(i - wsize) mod wsize = i - wsize" if "\<not> wsize \<le> i - wsize"
      by (rule mod_pos_pos_trivial) (use that True in simp_all)
    with same have "(if wsize \<le> i - wsize then (i - wsize) mod wsize else i - wsize)
        = i mod wsize"
      by metis
    with IH have "wrap_down (i - wsize) wsize = Some (i mod wsize)" by (simp only:)
    with True show ?thesis by (subst wrap_down.simps) simp
  qed
qed

lemma wrap_up_pos:
  assumes "0 < wsize"
  shows "wrap_up i wsize = Some (if i < 0 then i mod wsize else i)"
proof (induction "nat (- i)" arbitrary: i rule: less_induct)
  case less
  show ?case
  proof (cases "i < 0")
    case False
    then show ?thesis by (subst wrap_up.simps) simp
  next
    case True
    with assms have "nat (- (i + wsize)) < nat (- i)" by simp
    then have IH: "wrap_up (i + wsize) wsize =
        Some (if i + wsize < 0 then (i + wsize) mod wsize else i + wsize)"
      by (rule less)
    have same: "(i + wsize) mod wsize = i mod wsize" by simp
    have "(i + wsize) mod wsize = i + wsize" if "\<not> i + wsize < 0"
      by (rule mod_pos_pos_trivial) (use that True in simp_all)
    with same have "(if i + wsize < 0 then (i + wsize) mod wsize else i + wsize)
        = i mod wsize"
      by metis
    with IH have "wrap_up (i + wsize) wsize = Some (i mod wsize)" by (simp only:)
    with True show ?thesis by (subst wrap_up.simps) simp
  qed
qed

lemma advance_pos:
  assumes "0 < wsize"
  shows "advance i increment wsize = Some ((i + increment) mod wsize)"
proof -
  have "0 \<le> (i + increment) mod wsize" "(i + increment) mod wsize < wsize"
    using assms by simp_all
  then show ?thesis
    using assms by (auto simp: advance_def wrap_down_pos wrap_up_pos)
qed

lemma wrap_down_Some: "wrap_down i w = Some y \<Longrightarrow> w \<noteq> 0 \<or> i < 0"
  by (rule wrap_down.raw_induct [where P = "\<lambda>i w y. w \<noteq> 0 \<or> i < 0"])
    (fastforce split: if_splits)+

lemma wrap_up_Some: "wrap_up i w = Some y \<Longrightarrow> w \<noteq> 0 \<or> 0 \<le> i"
  by (rule wrap_up.raw_induct [where P = "\<lambda>i w y. w \<noteq> 0 \<or> 0 \<le> i"])
    (fastforce split: if_splits)+

lemma wrap_down_zero: "0 \<le> i \<Longrightarrow> wrap_down i 0 = None"
  using wrap_down_Some [of i 0] by (cases "wrap_down i 0") auto

lemma wrap_up_zero: "i < 0 \<Longrightarrow> wrap_up i 0 = None"
  using wrap_up_Some [of i 0] by (cases "wrap_up i 0") auto

lemma advance_zero: "advance i increment 0 = None"
proof (cases "0 \<le> i + increment")
  case True
  then show ?thesis by (simp add: advance_def wrap_down_zero)
next
  case False
  then have "wrap_down (i + increment) 0 = Some (i + increment)"
    by (subst wrap_down.simps) simp
  with False show ?thesis by (simp add: advance_def wrap_up_zero)
qed


lemma round_real_ge_one:
  assumes "1 \<le> r"
  shows "1 \<le> round_real fmt r"
proof -
  define L where "L = \<lfloor>log 2 \<bar>r\<bar>\<rfloor>"
  have nz: "r \<noteq> 0" using assms by simp
  have "0 \<le> log 2 \<bar>r\<bar>" using assms by simp
  then have L: "0 \<le> L" by (simp add: L_def)
  have le: "2 powr of_int L \<le> r"
    using floor_log2_bounds(1) [OF nz] assms by (simp add: L_def)
  have "emin_ulp fmt \<le> 0" by (cases fmt) (simp_all add: emin_ulp_def)
  with L precision_pos [of fmt] have e: "ulp_exponent fmt r \<le> L"
    unfolding ulp_exponent_def L_def [symmetric] by linarith
  have "2 powr of_int L \<le> round_real fmt r"
    using le on_grid [OF e, of 1] by (intro round_real_ge) simp_all
  moreover have "(1::real) \<le> 2 powr of_int L"
    using L by (simp add: ge_one_powr_ge_zero)
  ultimately show ?thesis by linarith
qed

lemma float_of_int_pos:
  assumes "1 \<le> n"
  shows "(\<exists>v. float_of_int n = Fin v \<and> 1 \<le> v) \<or> float_of_int n = PInf"
proof -
  have "1 \<le> round_real Single (of_int n)"
    using assms by (intro round_real_ge_one) simp
  then show ?thesis by (simp add: float_of_int_def fround_def Let_def)
qed

lemma base_sample_increment_zero:
  assumes "1 \<le> n"
  shows "base_sample_increment 0 n = Inr 0"
proof -
  have z: "float_of_int 0 = Fin 0" by (simp add: float_of_int_def)
  from float_of_int_pos [OF assms]
  have "fdiv Single (Fin 0) (float_of_int n) = Fin 0" by auto
  then show ?thesis
    by (simp add: base_sample_increment_def z c_trunc_def INT_MIN_def INT_MAX_def)
qed

lemma base_sample_increment_small:
  assumes "0 \<le> wsize" and "wsize < 2 ^ 24" and "1 \<le> n" and "n \<le> 2 ^ 24"
  shows "base_sample_increment wsize n = Inr \<lceil>real_of_int wsize / real_of_int n\<rceil>"
proof -
  let ?q = "real_of_int wsize / real_of_int n"
  have w: "float_of_int wsize = Fin (of_int wsize)"
    using assms(1,2) by (intro float_of_int_small) simp
  have n: "float_of_int n = Fin (of_int n)"
    using assms(3,4) by (intro float_of_int_small) simp
  have "?q \<le> real_of_int wsize / 1"
    by (rule divide_left_mono) (use assms(1,3) in simp_all)
  then have qw: "?q \<le> of_int wsize" by simp
  note qw
  also have "real_of_int wsize \<le> 2 ^ 24"
    using assms(2) by (metis less_imp_le of_int_le_iff of_int_numeral of_int_power)
  finally have q: "\<bar>?q\<bar> \<le> 2 powr of_int 24" using assms(1,3) by simp
  have fin: "fround Single ?q = Fin (round_real Single ?q)"
    using q by (rule fround_finite) (simp_all add: emin_ulp_def)
  have c: "\<lceil>round_real Single ?q\<rceil> = \<lceil>?q\<rceil>"
    using assms by (rule ceiling_round_quotient)
  have "0 \<le> ?q" using assms(1,3) by simp
  then have lo: "0 \<le> \<lceil>?q\<rceil>" by linarith
  have "\<lceil>?q\<rceil> \<le> wsize" using qw by (simp add: ceiling_le_iff)
  with assms(2) have hi: "\<lceil>?q\<rceil> < 2 ^ 24" by linarith
  have "n \<noteq> 0" using assms(3) by simp
  then show ?thesis
    using lo hi
    by (simp add: base_sample_increment_def w n fin c c_trunc_def INT_MIN_def INT_MAX_def)
qed


lemma perform_loop_terminates:
  "0 < wsize \<Longrightarrow> \<exists>r. perform_loop n frequency wt wsize base i out = Some r"
  by (induction n arbitrary: i out) (simp_all add: advance_pos)

lemma perform_loop_in_range:
  assumes "0 < wsize" "int (length wt) = wsize" "0 \<le> i" "i < wsize"
  shows "perform_loop n frequency wt wsize base i out =
    Some (Inr (out @ map (\<lambda>k. wt ! nat ((i + int k * base) mod wsize)) [0..<n],
               (i + int n * base) mod wsize))"
  using assms(3,4)
proof (induction n arbitrary: i out)
  case 0
  then show ?case by simp
next
  case (Suc n)
  let ?i' = "(i + base) mod wsize"
  have step: "advance i (sample_increment frequency base) wsize = Some ?i'"
    using assms(1) by (simp add: advance_pos sample_increment_def)
  have "0 \<le> ?i'" "?i' < wsize" using assms(1) by simp_all
  then have IH: "perform_loop n frequency wt wsize base ?i' (out @ [wt ! nat i]) =
    Some (Inr ((out @ [wt ! nat i]) @ map (\<lambda>k. wt ! nat ((?i' + int k * base) mod wsize)) [0..<n],
               (?i' + int n * base) mod wsize))"
    by (rule Suc.IH)
  have shift: "(?i' + int k * base) mod wsize = (i + int (Suc k) * base) mod wsize" for k
    by (simp add: algebra_simps mod_simps)
  have first: "i mod wsize = i" using Suc.prems by simp
  have "map (\<lambda>k. wt ! nat ((i + int k * base) mod wsize)) [0..<Suc n] =
      wt ! nat i # map (\<lambda>k. wt ! nat ((?i' + int k * base) mod wsize)) [0..<n]"
    by (simp only: shift upt_conv_Cons [of 0 "Suc n"] map_Suc_upt [symmetric] list.map map_map o_def)
       (simp add: first)
  with IH step Suc.prems assms(2) shift [of n] show ?case
    by simp
qed



lemma randwave_perform_in_range:
  assumes "0 < wavetable_size x" "int (length (wavetable x)) = wavetable_size x"
    "0 \<le> phase x" "phase x < wavetable_size x" "0 \<le> n"
    "base_sample_increment (wavetable_size x) n = Inr base"
  shows "randwave_perform x frequency n =
    Some (Inr (map (\<lambda>k. wavetable x ! nat ((phase x + int k * base) mod wavetable_size x))
                 [0..<nat n],
               x\<lparr>phase := (phase x + n * base) mod wavetable_size x\<rparr>))"
  using assms
  by (simp add: randwave_perform_def perform_loop_in_range)








lemma randwave_perform_returns:
  assumes "0 < wavetable_size x"
  shows "\<exists>r. randwave_perform x frequency n = Some r"
proof (cases "base_sample_increment (wavetable_size x) n")
  case (Inl e)
  then show ?thesis by (simp add: randwave_perform_def)
next
  case (Inr base)
  obtain r where "perform_loop (nat n) frequency (wavetable x) (wavetable_size x) base
      (phase x) [] = Some r"
    using perform_loop_terminates [OF assms] by blast
  with Inr show ?thesis
    by (cases r) (auto simp: randwave_perform_def)
qed

lemma randwave_perform_zero_size:
  assumes "wavetable_size x = 0" "0 < n"
  shows "randwave_perform x frequency n =
    (if 0 \<le> phase x \<and> phase x < int (length (wavetable x)) then None
     else Some (Inl OutOfBounds))"
proof -
  from assms(2) obtain m where m: "nat n = Suc m"
    by (cases "nat n") auto
  from assms have "base_sample_increment (wavetable_size x) n = Inr 0"
    by (simp add: base_sample_increment_zero)
  with assms m show ?thesis
    by (auto simp: randwave_perform_def advance_zero)
qed

text \<open>
  Claim C10. For a block of at least one sample, \<^verbatim>\<open>randwave_perform\<close> returns when
  the table size is at least 1: each of the two loops stops. For a table size of 0
  no advance of the index ever stops, and the call does not return (unless the
  first read is already outside the table).
\<close>

theorem randwave_perform_terminates:
  assumes "1 \<le> n"
  shows "(1 \<le> wavetable_size x \<longrightarrow> (\<exists>r. randwave_perform x frequency n = Some r)) \<and>
    (1 \<le> w \<longrightarrow> (\<exists>j. wrap_down i w = Some j) \<and> (\<exists>j. wrap_up i w = Some j)) \<and>
    advance i increment 0 = None \<and>
    (wavetable_size x = 0 \<longrightarrow>
       randwave_perform x frequency n =
         (if 0 \<le> phase x \<and> phase x < int (length (wavetable x)) then None
          else Some (Inl OutOfBounds)))"
  using assms
  by (simp add: randwave_perform_returns randwave_perform_zero_size advance_zero
      wrap_down_pos wrap_up_pos)

theorem randwave_perform_terminates_witness:
  "(\<exists>r. randwave_perform
      \<lparr>points = [], num_points = 0, wavetable = [Fin 0, Fin 1], wavetable_size = 2,
       phase = 1, generated = True\<rparr> [] 8 = Some r) \<and>
   randwave_perform
      \<lparr>points = [], num_points = 0, wavetable = [Fin 0], wavetable_size = 0,
       phase = 0, generated = True\<rparr> [] 8 = None"
  using randwave_perform_terminates [of 8
      "\<lparr>points = [], num_points = 0, wavetable = [Fin 0, Fin 1], wavetable_size = 2,
       phase = 1, generated = True\<rparr>" "[]" 1 0 0]
    randwave_perform_terminates [of 8
      "\<lparr>points = [], num_points = 0, wavetable = [Fin 0], wavetable_size = 0,
       phase = 0, generated = True\<rparr>" "[]" 1 0 0]
  by simp

subsection \<open>The sampler\<close>

lemma fold_update_prefix:
  "m \<le> length arr \<Longrightarrow>
    fold (\<lambda>i a. a[i := f i]) [0..<m] arr = map f [0..<m] @ drop m arr"
proof (induction m)
  case 0
  then show ?case by simp
next
  case (Suc m)
  then have "m < length arr" by simp
  then have "(map f [0..<m] @ drop m arr)[m := f m] = map f [0..<m] @ f m # drop (Suc m) arr"
    by (simp add: list_update_append upd_conv_take_nth_drop)
  with Suc show ?case by simp
qed

lemma fill_eq: "length arr = nat n \<Longrightarrow> fill arr n = map (\<lambda>i. int i + 1) [0..<nat n]"
  by (simp add: fill_def fold_update_prefix)

lemma set_fill: "length arr = nat n \<Longrightarrow> set (fill arr n) = {1..n}"
proof -
  assume "length arr = nat n"
  then have "set (fill arr n) = (\<lambda>i. int i + 1) ` {0..<nat n}"
    by (simp add: fill_eq)
  also have "\<dots> = {1..n}"
  proof (intro set_eqI iffI)
    fix v assume "v \<in> (\<lambda>i. int i + 1) ` {0..<nat n}"
    then show "v \<in> {1..n}" by auto
  next
    fix v assume v: "v \<in> {1..n}"
    then have "v = int (nat (v - 1)) + 1" "nat (v - 1) \<in> {0..<nat n}" by auto
    then show "v \<in> (\<lambda>i. int i + 1) ` {0..<nat n}" by (rule image_eqI)
  qed
  finally show ?thesis .
qed

lemma distinct_fill: "length arr = nat n \<Longrightarrow> distinct (fill arr n)"
  by (simp add: fill_eq distinct_map inj_on_def)

lemma length_fill: "length arr = nat n \<Longrightarrow> length (fill arr n) = nat n"
  by (simp add: fill_eq)

lemma mset_swap_arr: "a < length arr \<Longrightarrow> b < length arr \<Longrightarrow> mset (swap arr a b) = mset arr"
  by (simp add: swap_def Let_def mset_swap)

lemma mset_shuffle_from:
  "i < length arr \<Longrightarrow> mset (fst (shuffle_from i arr rng c)) = mset arr"
proof (induction i arbitrary: arr c)
  case 0
  then show ?case by simp
next
  case (Suc i)
  let ?j = "rng c mod (Suc i + 1)"
  have "?j < Suc (Suc i)" by simp
  with Suc.prems have j: "?j < length arr" by linarith
  have len: "length (swap arr ?j (Suc i)) = length arr"
    by (simp add: swap_def Let_def)
  with Suc.prems have "i < length (swap arr ?j (Suc i))" by simp
  then have "mset (fst (shuffle_from i (swap arr ?j (Suc i)) rng (Suc c))) =
      mset (swap arr ?j (Suc i))"
    by (rule Suc.IH)
  with j Suc.prems show ?case by (simp add: Let_def mset_swap_arr)
qed

lemma mset_shuffle: "length arr = nat n \<Longrightarrow> mset (fst (shuffle arr n rng c)) = mset arr"
proof (cases "0 < n")
  case True
  assume "length arr = nat n"
  with True have "nat (n - 1) < length arr" by simp
  then show ?thesis by (simp add: shuffle_def mset_shuffle_from)
next
  case False
  then show ?thesis by (simp add: shuffle_def)
qed

lemma snd_shuffle_from: "snd (shuffle_from i arr rng c) = c + i"
  by (induction i arbitrary: arr c) (simp_all add: Let_def)

lemma qsort_insert_insort: "qsort_insert int_qsort_compar v ys = insort v ys"
  by (induction ys) (simp_all add: int_qsort_compar_def)

lemma qsort_eq_sort:
  "qsort base nmemb int_qsort_compar = sort (take nmemb base) @ drop nmemb base"
proof -
  have "foldr (qsort_insert int_qsort_compar) xs [] = sort xs" for xs
    by (induction xs) (simp_all add: qsort_insert_insort)
  then show ?thesis by (simp add: qsort_def)
qed

lemma fill_points_run:
  assumes "m \<le> length pts"
  shows "fold (\<lambda>i (p, c). (p[i := \<lparr>sample = all_samples ! (i - 1),
                                amplitude = random_amplitude (rng c)\<rparr>], Suc c))
       [1..<m] (pts, c0) =
     (map (\<lambda>i. if 1 \<le> i \<and> i < m
                then \<lparr>sample = all_samples ! (i - 1),
                      amplitude = random_amplitude (rng (c0 + (i - 1)))\<rparr>
                else pts ! i) [0..<length pts], c0 + (m - 1))"
  using assms
proof (induction m)
  case 0
  then show ?case by (simp add: map_nth)
next
  case (Suc m)
  show ?case
  proof (cases "m = 0")
    case True
    then show ?thesis by (auto intro!: nth_equalityI)
  next
    case False
    then have split: "[1..<Suc m] = [1..<m] @ [m]" by simp
    from Suc.prems have m: "m < length pts" by simp
    have IH: "fold (\<lambda>i (p, c). (p[i := \<lparr>sample = all_samples ! (i - 1),
                                amplitude = random_amplitude (rng c)\<rparr>], Suc c))
       [1..<m] (pts, c0) =
     (map (\<lambda>i. if 1 \<le> i \<and> i < m
                then \<lparr>sample = all_samples ! (i - 1),
                      amplitude = random_amplitude (rng (c0 + (i - 1)))\<rparr>
                else pts ! i) [0..<length pts], c0 + (m - 1))"
      using Suc.prems by (intro Suc.IH) simp
    show ?thesis
      unfolding split fold_append o_apply IH
      using m False
      by (auto intro!: nth_equalityI simp: nth_list_update)
  qed
qed


lemma length_shuffle: "length arr = nat n \<Longrightarrow> length (fst (shuffle arr n rng c)) = nat n"
  using mset_shuffle [of arr n rng c] by (metis size_mset)

lemma set_shuffle_fill:
  "set (fst (shuffle (fill (replicate (nat n) 0) n) n rng c)) = {1..n}"
proof -
  have "mset (fst (shuffle (fill (replicate (nat n) 0) n) n rng c)) =
      mset (fill (replicate (nat n) 0) n)"
    by (rule mset_shuffle) (simp add: length_fill)
  then have "set (fst (shuffle (fill (replicate (nat n) 0) n) n rng c)) =
      set (fill (replicate (nat n) 0) n)"
    by (rule mset_eq_setD)
  then show ?thesis by (simp add: set_fill)
qed

lemma distinct_shuffle_fill:
  "distinct (fst (shuffle (fill (replicate (nat n) 0) n) n rng c))"
proof -
  have "mset (fst (shuffle (fill (replicate (nat n) 0) n) n rng c)) =
      mset (fill (replicate (nat n) 0) n)"
    by (rule mset_shuffle) (simp add: length_fill)
  moreover have "distinct (fill (replicate (nat n) 0) n)"
    by (simp add: distinct_fill)
  ultimately show ?thesis by (metis mset_eq_imp_distinct_iff)
qed

lemma control_points_valid:
  assumes "3 \<le> wsize" and "2 \<le> npoints" and "npoints \<le> wsize"
  shows "\<exists>pts. control_points wsize npoints rng = Inr pts \<and>
    length pts = nat npoints \<and>
    pts ! 0 = \<lparr>sample = 0, amplitude = Fin 0\<rparr> \<and>
    pts ! (nat npoints - 1) = \<lparr>sample = wsize - 1, amplitude = Fin 0\<rparr> \<and>
    map sample pts =
      0 # sort (take (nat (npoints - 2))
                 (fst (shuffle (fill (replicate (nat (wsize - 2)) 0) (wsize - 2))
                        (wsize - 2) rng 0))) @ [wsize - 1] \<and>
    (\<forall>i. 1 \<le> i \<and> i < nat npoints - 1 \<longrightarrow>
       amplitude (pts ! i) = random_amplitude (rng (nat (wsize - 3) + (i - 1))))"
proof -
  define all2 where "all2 = fst (shuffle (fill (replicate (nat (wsize - 2)) 0) (wsize - 2))
                        (wsize - 2) rng 0)"
  define c where "c = snd (shuffle (fill (replicate (nat (wsize - 2)) 0) (wsize - 2))
                        (wsize - 2) rng 0)"
  define all3 where "all3 = qsort all2 (nat (npoints - 2)) int_qsort_compar"
  define pts2 where "pts2 = (replicate (nat npoints) \<lparr>sample = 0, amplitude = Fin 0\<rparr>)
      [0 := \<lparr>sample = 0, amplitude = Fin 0\<rparr>,
       nat (npoints - 1) := \<lparr>sample = wsize - 1, amplitude = Fin 0\<rparr>]"
  define pts where "pts = map (\<lambda>i. if 1 \<le> i \<and> i < nat (npoints - 1)
                then \<lparr>sample = all3 ! (i - 1),
                      amplitude = random_amplitude (rng (c + (i - 1)))\<rparr>
                else pts2 ! i) [0..<length pts2]"
  have sh: "shuffle (fill (replicate (nat (wsize - 2)) 0) (wsize - 2)) (wsize - 2) rng 0 =
      (all2, c)"
    by (simp add: all2_def c_def)
  have len2: "length pts2 = nat npoints" by (simp add: pts2_def)
  have c: "c = nat (wsize - 3)"
    by (simp add: c_def shuffle_def snd_shuffle_from) 
  have lenall: "length all2 = nat (wsize - 2)"
    unfolding all2_def by (rule length_shuffle) (simp add: length_fill)
  have fp: "fill_points pts2 npoints all3 rng c = (pts, c + (nat (npoints - 1) - 1))"
    unfolding fill_points_def pts_def
    by (rule fill_points_run) (use assms len2 in simp)
  have run: "control_points wsize npoints rng = Inr pts"
    using assms
    by (simp add: control_points_def Let_def sh fp flip: pts2_def all3_def)
  have len: "length pts = nat npoints" by (simp add: pts_def len2)
  have first: "pts ! 0 = \<lparr>sample = 0, amplitude = Fin 0\<rparr>"
    using assms by (simp add: pts_def len2 pts2_def nth_list_update)
  have final: "pts ! (nat npoints - 1) = \<lparr>sample = wsize - 1, amplitude = Fin 0\<rparr>"
  proof -
    have "nat npoints - 1 = nat (npoints - 1)" using assms by simp
    moreover have "nat (npoints - 1) < nat npoints" using assms by simp
    ultimately show ?thesis
      by (simp add: pts_def len2 pts2_def nth_list_update)
  qed
  have take3: "take (nat (npoints - 2)) all3 = sort (take (nat (npoints - 2)) all2)"
    using assms lenall by (simp add: all3_def qsort_eq_sort)
  have samples: "map sample pts = 0 # sort (take (nat (npoints - 2)) all2) @ [wsize - 1]"
  proof (rule nth_equalityI)
    show "length (map sample pts) =
        length (0 # sort (take (nat (npoints - 2)) all2) @ [wsize - 1])"
      using assms lenall by (simp add: len)
  next
    fix i assume "i < length (map sample pts)"
    then have i: "i < nat npoints" by (simp add: len)
    have "nat (npoints - 1) = nat npoints - 1" using assms by simp
    with i consider "i = 0" | "1 \<le> i" "i < nat (npoints - 1)" | "i = nat (npoints - 1)"
      by linarith
    then show "map sample pts ! i =
        (0 # sort (take (nat (npoints - 2)) all2) @ [wsize - 1]) ! i"
    proof cases
      case 1
      with first i show ?thesis by (simp add: len)
    next
      case 2
      then have "i - 1 < nat (npoints - 2)" by linarith
      then have "all3 ! (i - 1) = sort (take (nat (npoints - 2)) all2) ! (i - 1)"
        by (metis take3 nth_take)
      moreover have "i - 1 < length (sort (take (nat (npoints - 2)) all2))"
        using \<open>i - 1 < nat (npoints - 2)\<close> assms lenall by simp
      ultimately show ?thesis
        using 2 i by (simp add: pts_def len2 nth_Cons' nth_append)
    next
      case 3
      have "length (sort (take (nat (npoints - 2)) all2)) = nat (npoints - 2)"
        using assms lenall by simp
      moreover have "nat (npoints - 1) = Suc (nat (npoints - 2))"
        using assms by simp
      moreover have "nat (npoints - 1) = nat npoints - 1" using assms by simp
      ultimately show ?thesis
        using 3 i final by (simp add: len nth_append)
    qed
  qed
  have amps: "\<forall>i. 1 \<le> i \<and> i < nat npoints - 1 \<longrightarrow>
       amplitude (pts ! i) = random_amplitude (rng (nat (wsize - 3) + (i - 1)))"
    using assms by (auto simp: pts_def len2 c nat_diff_distrib)
  show ?thesis
  proof (intro exI conjI)
    show "control_points wsize npoints rng = Inr pts" by (rule run)
    show "length pts = nat npoints" by (rule len)
    show "pts ! 0 = \<lparr>sample = 0, amplitude = Fin 0\<rparr>" by (rule first)
    show "pts ! (nat npoints - 1) = \<lparr>sample = wsize - 1, amplitude = Fin 0\<rparr>"
      by (rule final)
    show "map sample pts =
      0 # sort (take (nat (npoints - 2))
                 (fst (shuffle (fill (replicate (nat (wsize - 2)) 0) (wsize - 2))
                        (wsize - 2) rng 0))) @ [wsize - 1]"
      using samples unfolding all2_def .
    show "\<forall>i. 1 \<le> i \<and> i < nat npoints - 1 \<longrightarrow>
       amplitude (pts ! i) = random_amplitude (rng (nat (wsize - 3) + (i - 1)))"
      by (rule amps)
  qed
qed

lemma float_of_int_RAND_MAX: "float_of_int (int RAND_MAX) = Fin 2147483648"
  by (simp add: float_of_int_def RAND_MAX_def fround_def round_single_RAND_MAX
      powr_numeral powr_add)

lemma fround_unit:
  assumes "\<bar>r\<bar> \<le> 2 ^ j" and "j \<le> 31"
  shows "\<exists>v. fround Single r = Fin v \<and> \<bar>v\<bar> \<le> 2 ^ j \<and> (0 \<le> r \<longrightarrow> 0 \<le> v)"
proof -
  have p: "(2::real) ^ j = 2 powr of_int (int j)" by (simp add: powr_realpow)
  have e: "emin_ulp Single \<le> int j" "int j \<le> emax Single"
    using assms(2) by (simp_all add: emin_ulp_def)
  have "fround Single r = Fin (round_real Single r)"
    using assms(1) e unfolding p by (rule fround_finite)
  moreover have "\<bar>round_real Single r\<bar> \<le> 2 ^ j"
    using assms(1) e(1) unfolding p by (rule round_real_bounded)
  ultimately show ?thesis by (simp add: round_real_nonneg)
qed

lemma random_amplitude_range:
  assumes "r \<le> RAND_MAX"
  shows "\<exists>a. random_amplitude r = Fin a \<and> - 1 \<le> a \<and> a \<le> 1"
proof -
  have "\<bar>real_of_int (int r)\<bar> \<le> 2 ^ 31"
    using assms by (simp add: RAND_MAX_def)
  then obtain a where a: "float_of_int (int r) = Fin a" "\<bar>a\<bar> \<le> 2 ^ 31" "0 \<le> a"
    using fround_unit [of "real_of_int (int r)" 31] by (auto simp: float_of_int_def)
  have "\<bar>a / 2147483648\<bar> \<le> 2 ^ 0" "0 \<le> a / 2147483648"
    using a(2,3) by simp_all
  then obtain q where q: "fround Single (a / 2147483648) = Fin q" "\<bar>q\<bar> \<le> 2 ^ 0" "0 \<le> q"
    using fround_unit [of "a / 2147483648" 0] by auto
  have "\<bar>q * 2\<bar> \<le> 2 ^ 1" "0 \<le> q * 2"
    using q(2,3) by simp_all
  then obtain t where t: "fround Single (q * 2) = Fin t" "\<bar>t\<bar> \<le> 2 ^ 1" "0 \<le> t"
    using fround_unit [of "q * 2" 1] by auto
  have "\<bar>t - 1\<bar> \<le> 2 ^ 0"
    using t(2,3) by simp
  then obtain s where s: "fround Single (t - 1) = Fin s" "\<bar>s\<bar> \<le> 2 ^ 0"
    using fround_unit [of "t - 1" 0] by auto
  have "random_amplitude r = Fin s"
    by (simp add: random_amplitude_def float_of_int_RAND_MAX a(1) q(1) t(1) s(1) fsub_def)
  moreover from s(2) have "\<bar>s\<bar> \<le> 1" by simp
  then have "- 1 \<le> s" "s \<le> 1" by linarith+
  ultimately show ?thesis by blast
qed

lemma strictly_ascending_samples:
  fixes xs :: "int list" and w :: int
  assumes "distinct xs" and "\<forall>v \<in> set xs. 1 \<le> v \<and> v \<le> w - 2" and "3 \<le> w"
  shows "sorted_wrt (<) (0 # sort xs @ [w - 1])"
proof -
  have "sorted_wrt (<) (sort xs)"
    using assms(1) by (simp add: strict_sorted_iff)
  moreover have "\<forall>v \<in> set (sort xs). 0 < v \<and> v < w - 1"
    using assms(2) by auto
  ultimately show ?thesis
    using assms(3) by (auto simp: sorted_wrt_append)
qed

lemma control_points_ascending:
  assumes "3 \<le> wsize" and "2 \<le> npoints" and "npoints \<le> wsize"
    and "control_points wsize npoints rng = Inr pts"
  shows "sorted_wrt (<) (map sample pts)"
    and "\<forall>i. 1 \<le> i \<and> i < nat npoints - 1 \<longrightarrow>
           1 \<le> sample (pts ! i) \<and> sample (pts ! i) \<le> wsize - 2"
proof -
  let ?all2 = "fst (shuffle (fill (replicate (nat (wsize - 2)) 0) (wsize - 2))
                        (wsize - 2) rng 0)"
  let ?xs = "take (nat (npoints - 2)) ?all2"
  from control_points_valid [OF assms(1-3), of rng] assms(4)
  have len: "length pts = nat npoints"
    and samples: "map sample pts = 0 # sort ?xs @ [wsize - 1]"
    by auto
  have "distinct ?xs"
    by (rule distinct_take) (rule distinct_shuffle_fill)
  moreover have range: "\<forall>v \<in> set ?xs. 1 \<le> v \<and> v \<le> wsize - 2"
    using set_take_subset [of "nat (npoints - 2)" ?all2]
    by (auto simp: set_shuffle_fill)
  ultimately show "sorted_wrt (<) (map sample pts)"
    unfolding samples using assms(1) by (rule strictly_ascending_samples)
  show "\<forall>i. 1 \<le> i \<and> i < nat npoints - 1 \<longrightarrow>
           1 \<le> sample (pts ! i) \<and> sample (pts ! i) \<le> wsize - 2"
  proof (intro allI impI)
    fix i assume i: "1 \<le> i \<and> i < nat npoints - 1"
    define ys where "ys = sort ?xs"
    have lenys: "length ys = nat (npoints - 2)"
      unfolding ys_def by (simp add: length_shuffle length_fill) (use assms in linarith)
    from i have "i < length pts" unfolding len by linarith
    then have "sample (pts ! i) = (0 # ys @ [wsize - 1]) ! i"
      unfolding ys_def by (metis samples nth_map)
    moreover have "nat npoints - 1 = Suc (nat (npoints - 2))" using assms by simp
    with i have pos: "0 < i" and less: "i - 1 < length ys" unfolding lenys by linarith+
    ultimately have "sample (pts ! i) = ys ! (i - 1)" "i - 1 < length ys"
      by (simp_all add: nth_Cons' nth_append)
    then have "sample (pts ! i) \<in> set ys"
      by (metis nth_mem)
    with range show "1 \<le> sample (pts ! i) \<and> sample (pts ! i) \<le> wsize - 2"
      unfolding ys_def by simp
  qed
qed

subsection \<open>The interpolator\<close>

lemma fold_fadd_NaN:
  "fold (\<lambda>k acc. fadd fmt acc (g k)) ks NaN = NaN"
  by (induction ks) simp_all

lemma interp_sum_at_point:
  assumes "k < nat npoints" and "sample (pts ! k) = i"
  shows "interp_sum i wsize pts npoints = NaN"
proof -
  from assms(1) have N: "npoints \<noteq> 0" by auto
  have "fsub Single (angle i wsize) (angle (sample (pts ! k)) wsize) = Fin 0 \<or>
      fsub Single (angle i wsize) (angle (sample (pts ! k)) wsize) = NaN"
    unfolding assms(2) by (rule fsub_self)
  then have tm: "fmul Single (amplitude (pts ! k))
      (trig_cardinal (fsub Single (angle i wsize) (angle (sample (pts ! k)) wsize)) npoints)
      = NaN"
    by (simp add: trig_cardinal_at_zero [OF N])
  have "[0..<nat npoints] = [0..<k] @ [k..<nat npoints]"
    using assms(1) by (metis le0 less_imp_le_nat le_add_diff_inverse upt_add_eq_append)
  also have "[k..<nat npoints] = k # [Suc k..<nat npoints]"
    using assms(1) by (rule upt_conv_Cons)
  finally have "[0..<nat npoints] = [0..<k] @ k # [Suc k..<nat npoints]" .
  then show ?thesis
    by (simp add: interp_sum_def tm fold_fadd_NaN)
qed

lemma hard_limit_NaN: "hard_limit NaN = NaN"
  by (simp add: hard_limit_def fgt_def)

lemma hard_limit_range:
  "hard_limit v = NaN \<or> (\<exists>a. hard_limit v = Fin a \<and> - 1 \<le> a \<and> a \<le> 1)"
  by (cases v) (auto simp: hard_limit_def fgt_def)

lemma trig_interp_result:
  assumes "int (length wt) = wsize" and "npoints \<le> int (length pts)"
  shows "trig_interp wt wsize pts npoints =
    Inr (map (\<lambda>i. hard_limit (interp_sum (int i) wsize pts npoints)) [0..<nat wsize])"
  using assms by (auto simp: trig_interp_def fold_update_prefix)

subsection \<open>The generator\<close>

lemma fround_numeral [simp]:
  "numeral w \<le> (2 ^ 24 :: int) \<Longrightarrow> fround fmt (numeral w) = Fin (numeral w)"
  using fround_int [of "numeral w" fmt] by simp

lemma fround_neg_numeral [simp]:
  "numeral w \<le> (2 ^ 24 :: int) \<Longrightarrow> fround fmt (- numeral w) = Fin (- numeral w)"
  using fround_int [of "- numeral w" fmt] by simp

lemma fround_one [simp]: "fround fmt 1 = Fin 1"
  using fround_int [of 1 fmt] by simp

lemma fround_neg_one [simp]: "fround fmt (- 1) = Fin (- 1)"
  using fround_int [of "- 1" fmt] by simp

lemma c_trunc_of_int [simp]: "c_trunc (of_int k) = k"
  by (simp add: c_trunc_def)

lemma c_trunc_numeral [simp]: "c_trunc (numeral w) = numeral w" "c_trunc (- numeral w) = - numeral w"
  using c_trunc_of_int [of "numeral w"] c_trunc_of_int [of "- numeral w"] by simp_all

lemma c_trunc_unit [simp]: "c_trunc 0 = 0" "c_trunc 1 = 1" "c_trunc (- 1) = - 1"
  using c_trunc_of_int [of 0] c_trunc_of_int [of 1] c_trunc_of_int [of "- 1"] by simp_all

lemma randwave_generate_runs:
  assumes "a < 0 \<and> wsize = 2048 \<or> 0 \<le> a \<and> wsize = c_trunc a \<and> wsize \<le> INT_MAX"
    and "fadd Single (Fin b) (Fin 2) = Fin c" and "npoints = c_trunc c"
    and "3 \<le> wsize" and "2 \<le> npoints" and "npoints \<le> wsize"
  shows "\<exists>pts. control_points wsize npoints rng = Inr pts \<and>
    randwave_generate x (Fin a) (Fin b) rng =
      Inr (x\<lparr>points := pts, num_points := npoints,
             wavetable := map (\<lambda>i. hard_limit (interp_sum (int i) wsize pts npoints))
                            [0..<nat wsize],
             wavetable_size := wsize, generated := True\<rparr>,
           Generating # (if a < 0 then [Invalid_sample_count 2048] else []) @
           (if fle (Fin b) (Fin 0) \<or> fgt (Fin b) (fsub Single (Fin a) (Fin 2))
            then [Invalid_num_points 4] else []) @
           point_messages pts npoints @ [Waveform_generated])"
proof -
  from control_points_valid [OF assms(4-6), of rng]
  obtain pts where pts: "control_points wsize npoints rng = Inr pts"
    and len: "length pts = nat npoints"
    by blast
  have ti: "trig_interp (replicate (nat wsize) (Fin 0)) wsize pts npoints =
      Inr (map (\<lambda>i. hard_limit (interp_sum (int i) wsize pts npoints)) [0..<nat wsize])"
    by (rule trig_interp_result) (use assms len in simp_all)
  have size: "(if flt (Fin a) (Fin 0) then Inr DEFAULT_WAVETABLE_SIZE
               else int_of_float (Fin a)) = Inr wsize"
    using assms(1,4) by (auto simp: DEFAULT_WAVETABLE_SIZE_def INT_MIN_def)
  have "npoints \<le> INT_MAX"
    using assms(1,6) by (auto simp: INT_MAX_def)
  then have count: "int_of_float (fadd Single (Fin b) (Fin 2)) = Inr npoints"
    unfolding assms(2) using assms(3,5) by (simp add: INT_MIN_def)
  have "randwave_generate x (Fin a) (Fin b) rng =
      Inr (x\<lparr>points := pts, num_points := npoints,
             wavetable := map (\<lambda>i. hard_limit (interp_sum (int i) wsize pts npoints))
                            [0..<nat wsize],
             wavetable_size := wsize, generated := True\<rparr>,
           Generating # (if a < 0 then [Invalid_sample_count 2048] else []) @
           (if fle (Fin b) (Fin 0) \<or> fgt (Fin b) (fsub Single (Fin a) (Fin 2))
            then [Invalid_num_points 4] else []) @
           point_messages pts npoints @ [Waveform_generated])"
    unfolding randwave_generate_def Let_def size count
    by (simp add: pts ti DEFAULT_WAVETABLE_SIZE_def DEFAULT_NUM_INTERP_POINTS_def)
  with pts show ?thesis by blast
qed

lemma randwave_generate_runs_size:
  assumes "a < 0 \<and> wsize = 2048 \<or> 0 \<le> a \<and> wsize = c_trunc a \<and> wsize \<le> INT_MAX"
    and "fadd Single (Fin b) (Fin 2) = Fin c" and "npoints = c_trunc c"
    and "3 \<le> wsize" and "2 \<le> npoints" and "npoints \<le> wsize"
  shows "\<exists>x' log. randwave_generate x (Fin a) (Fin b) rng = Inr (x', log) \<and>
    wavetable_size x' = wsize \<and> length (wavetable x') = nat wsize \<and>
    num_points x' = npoints \<and> length (points x') = nat npoints \<and>
    phase x' = phase x \<and>
    (a < 0 \<longrightarrow> Invalid_sample_count 2048 \<in> set log)"
proof -
  from randwave_generate_runs [OF assms, of rng x]
  obtain pts where cp: "control_points wsize npoints rng = Inr pts"
    and run: "randwave_generate x (Fin a) (Fin b) rng =
      Inr (x\<lparr>points := pts, num_points := npoints,
             wavetable := map (\<lambda>i. hard_limit (interp_sum (int i) wsize pts npoints))
                            [0..<nat wsize],
             wavetable_size := wsize, generated := True\<rparr>,
           Generating # (if a < 0 then [Invalid_sample_count 2048] else []) @
           (if fle (Fin b) (Fin 0) \<or> fgt (Fin b) (fsub Single (Fin a) (Fin 2))
            then [Invalid_num_points 4] else []) @
           point_messages pts npoints @ [Waveform_generated])"
    by blast
  from control_points_valid [OF assms(4-6), of rng] cp
  have "length pts = nat npoints" by auto
  with run show ?thesis by simp
qed

lemma randwave_generate_int_args:
  assumes "0 \<le> tableSize" and "tableSize \<le> 2 ^ 23" and "3 \<le> tableSize"
    and "0 \<le> interiorCount" and "interiorCount \<le> tableSize - 2"
  shows "\<exists>pts. control_points tableSize (interiorCount + 2) rng = Inr pts \<and>
    randwave_generate x (Fin (of_int tableSize)) (Fin (of_int interiorCount)) rng =
      Inr (x\<lparr>points := pts, num_points := interiorCount + 2,
             wavetable := map (\<lambda>i. hard_limit (interp_sum (int i) tableSize pts
                                 (interiorCount + 2))) [0..<nat tableSize],
             wavetable_size := tableSize, generated := True\<rparr>,
           Generating #
           (if interiorCount \<le> 0 then [Invalid_num_points 4] else []) @
           point_messages pts (interiorCount + 2) @ [Waveform_generated])"
proof -
  have "fround Single (of_int (interiorCount + 2)) = Fin (of_int (interiorCount + 2))"
    using assms by (intro fround_int) simp
  then have c: "fadd Single (Fin (of_int interiorCount)) (Fin 2) =
      Fin (of_int (interiorCount + 2))"
    by simp
  have "fround Single (of_int (tableSize - 2)) = Fin (of_int (tableSize - 2))"
    using assms by (intro fround_int) simp
  then have d: "fsub Single (Fin (of_int tableSize)) (Fin 2) = Fin (of_int (tableSize - 2))"
    by (simp add: fsub_def)
  have inv: "(fle (Fin (of_int interiorCount)) (Fin 0) \<or>
      fgt (Fin (of_int interiorCount)) (fsub Single (Fin (of_int tableSize)) (Fin 2))) =
      (interiorCount \<le> 0)"
    unfolding d using assms(5) by (simp add: fgt_def)
  have p1: "real_of_int tableSize < 0 \<and> tableSize = 2048 \<or>
      0 \<le> real_of_int tableSize \<and> tableSize = c_trunc (of_int tableSize) \<and>
      tableSize \<le> INT_MAX"
    using assms(1,2) by (simp add: INT_MAX_def)
  have p3: "interiorCount + 2 = c_trunc (of_int (interiorCount + 2))"
    by (simp only: c_trunc_of_int)
  from randwave_generate_runs [OF p1 c p3, of rng x] assms
  show ?thesis
    unfolding inv by simp
qed


text \<open>
  Claim C5, amended. A call of \<^verbatim>\<open>generate\<close> with a table size between 4 and
  \<open>2 ^ 20\<close> and an interior count between 1 and the table size minus 2 succeeds,
  whatever \<^verbatim>\<open>rand()\<close> returns within its range. The object then has the interior
  count plus 2 points; the first is \<open>(0, 0)\<close> and the last \<open>(tableSize - 1, 0)\<close>;
  the positions are strictly increasing, hence distinct; the interior ones lie
  between 1 and the table size minus 2; every amplitude is between -1 and 1.
\<close>

theorem randwave_generate_control_points:
  assumes "4 \<le> tableSize" and "tableSize \<le> 2 ^ 20"
    and "1 \<le> interiorCount" and "interiorCount \<le> tableSize - 2"
    and "\<forall>k. rng k \<le> RAND_MAX"
  shows "\<exists>x' log.
    randwave_generate x (float_of_int tableSize) (float_of_int interiorCount) rng =
      Inr (x', log) \<and>
    num_points x' = interiorCount + 2 \<and>
    length (points x') = nat (interiorCount + 2) \<and>
    hd (points x') = \<lparr>sample = 0, amplitude = Fin 0\<rparr> \<and>
    last (points x') = \<lparr>sample = tableSize - 1, amplitude = Fin 0\<rparr> \<and>
    sorted_wrt (<) (map sample (points x')) \<and>
    distinct (map sample (points x')) \<and>
    (\<forall>i. 1 \<le> i \<and> i \<le> nat interiorCount \<longrightarrow>
       1 \<le> sample (points x' ! i) \<and> sample (points x' ! i) \<le> tableSize - 2) \<and>
    (\<forall>p \<in> set (points x'). fle (Fin (- 1)) (amplitude p) \<and> fle (amplitude p) (Fin 1))"
proof -
  let ?np = "interiorCount + 2"
  have v: "3 \<le> tableSize" "2 \<le> ?np" "?np \<le> tableSize" "0 \<le> interiorCount"
    using assms by simp_all
  have big: "0 \<le> tableSize" "tableSize \<le> 2 ^ 23" "interiorCount \<le> tableSize - 2"
    using assms by simp_all
  have fa: "float_of_int tableSize = Fin (of_int tableSize)"
    "float_of_int interiorCount = Fin (of_int interiorCount)"
    using assms by (simp_all add: float_of_int_small)
  from randwave_generate_int_args [OF big(1,2) v(1) v(4) big(3), of rng x]
  obtain pts x' log where cp: "control_points tableSize ?np rng = Inr pts"
    and run: "randwave_generate x (float_of_int tableSize) (float_of_int interiorCount) rng =
      Inr (x', log)"
    and x': "points x' = pts" "num_points x' = ?np"
    unfolding fa by force
  from control_points_valid [OF v(1-3), of rng] cp
  have len: "length pts = nat ?np"
    and first: "pts ! 0 = \<lparr>sample = 0, amplitude = Fin 0\<rparr>"
    and final: "pts ! (nat ?np - 1) = \<lparr>sample = tableSize - 1, amplitude = Fin 0\<rparr>"
    and amps: "\<forall>i. 1 \<le> i \<and> i < nat ?np - 1 \<longrightarrow>
       amplitude (pts ! i) = random_amplitude (rng (nat (tableSize - 3) + (i - 1)))"
    by auto
  from control_points_ascending [OF v(1-3) cp]
  have asc: "sorted_wrt (<) (map sample pts)"
    and range: "\<forall>i. 1 \<le> i \<and> i < nat ?np - 1 \<longrightarrow>
           1 \<le> sample (pts ! i) \<and> sample (pts ! i) \<le> tableSize - 2"
    by blast+
  have ne: "pts \<noteq> []" using len v by auto
  have hd: "hd pts = \<lparr>sample = 0, amplitude = Fin 0\<rparr>"
    using ne first by (simp add: hd_conv_nth)
  have last: "last pts = \<lparr>sample = tableSize - 1, amplitude = Fin 0\<rparr>"
    using ne final by (simp add: last_conv_nth len)
  have dist: "distinct (map sample pts)"
    using asc by (simp add: strict_sorted_iff)
  have inner: "nat ?np - 1 = Suc (nat interiorCount)"
    using v by simp
  have interior: "\<forall>i. 1 \<le> i \<and> i \<le> nat interiorCount \<longrightarrow>
       1 \<le> sample (pts ! i) \<and> sample (pts ! i) \<le> tableSize - 2"
    using range unfolding inner by (simp add: less_Suc_eq_le)
  have unit: "fle (Fin (- 1)) (amplitude p) \<and> fle (amplitude p) (Fin 1)"
    if "p \<in> set pts" for p
  proof -
    from that obtain i where i: "i < nat ?np" and p: "p = pts ! i"
      by (metis in_set_conv_nth len)
    consider "i = 0" | "1 \<le> i" "i < nat ?np - 1" | "i = nat ?np - 1"
      using i by linarith
    then show ?thesis
    proof cases
      case 1
      with p first show ?thesis by simp
    next
      case 2
      with amps p have "amplitude p = random_amplitude (rng (nat (tableSize - 3) + (i - 1)))"
        by simp
      moreover obtain a where
        "random_amplitude (rng (nat (tableSize - 3) + (i - 1))) = Fin a" "- 1 \<le> a" "a \<le> 1"
        using random_amplitude_range assms(5) by blast
      ultimately show ?thesis by simp
    next
      case 3
      with p final show ?thesis by simp
    qed
  qed
  show ?thesis
  proof (intro exI conjI)
    show "randwave_generate x (float_of_int tableSize) (float_of_int interiorCount) rng =
      Inr (x', log)" by (rule run)
    show "num_points x' = ?np" by (rule x')
    show "length (points x') = nat ?np" unfolding x' by (rule len)
    show "hd (points x') = \<lparr>sample = 0, amplitude = Fin 0\<rparr>" unfolding x' by (rule hd)
    show "last (points x') = \<lparr>sample = tableSize - 1, amplitude = Fin 0\<rparr>"
      unfolding x' by (rule last)
    show "sorted_wrt (<) (map sample (points x'))" unfolding x' by (rule asc)
    show "distinct (map sample (points x'))" unfolding x' by (rule dist)
    show "\<forall>i. 1 \<le> i \<and> i \<le> nat interiorCount \<longrightarrow>
       1 \<le> sample (points x' ! i) \<and> sample (points x' ! i) \<le> tableSize - 2"
      unfolding x' by (rule interior)
    show "\<forall>p \<in> set (points x'). fle (Fin (- 1)) (amplitude p) \<and> fle (amplitude p) (Fin 1)"
      unfolding x' using unit by blast
  qed
qed

theorem randwave_generate_control_points_witness:
  "\<exists>x' log. randwave_generate randwave_new (Fin 16) (Fin 2) (\<lambda>k. 0) = Inr (x', log) \<and>
     num_points x' = 4 \<and> length (points x') = 4 \<and>
     hd (points x') = \<lparr>sample = 0, amplitude = Fin 0\<rparr> \<and>
     last (points x') = \<lparr>sample = 15, amplitude = Fin 0\<rparr> \<and>
     sorted_wrt (<) (map sample (points x')) \<and>
     1 \<le> sample (points x' ! 1) \<and> sample (points x' ! 2) \<le> 14"
proof -
  have "\<forall>k. (\<lambda>k. 0::nat) k \<le> RAND_MAX" by simp
  from randwave_generate_control_points [of 16 2 "\<lambda>k. 0" randwave_new, OF _ _ _ _ this]
  show ?thesis by (fastforce simp: float_of_int_small)
qed

text \<open>
  Without the bound the claim fails. The table size 3000000000 is a \<^verbatim>\<open>float\<close> and
  not an \<^verbatim>\<open>int\<close>: its conversion is undefined. For a table of \<open>2 ^ 26\<close> samples
  and \<open>2 ^ 25\<close> interior points the sum \<open>num_interp_points + 2\<close> rounds back to
  \<open>2 ^ 25\<close>, and the object has \<open>2 ^ 25\<close> points, not \<open>2 ^ 25 + 2\<close>.
\<close>

lemma fround_single_33554434: "fround Single 33554434 = Fin 33554432"
  by (simp add: fround_def round_single_33554434 powr_numeral powr_add)

theorem randwave_generate_control_points_counterexample:
  "randwave_generate randwave_new (Fin 3000000000) (Fin 4) (\<lambda>k. 0) = Inl FloatToInt \<and>
   map_sum id (\<lambda>r. num_points (fst r))
     (randwave_generate randwave_new (Fin 67108864) (Fin 33554432) (\<lambda>k. 0)) =
   Inr 33554432"
proof -
  have "randwave_generate randwave_new (Fin 3000000000) (Fin 4) (\<lambda>k. 0) = Inl FloatToInt"
    by (simp add: randwave_generate_def Let_def INT_MAX_def INT_MIN_def)
  moreover from randwave_generate_runs_size [of 67108864 67108864 33554432 33554432 33554432
      randwave_new "\<lambda>k. 0"]
  have "map_sum id (\<lambda>r. num_points (fst r))
     (randwave_generate randwave_new (Fin 67108864) (Fin 33554432) (\<lambda>k. 0)) =
   Inr 33554432"
    by (auto simp: fround_single_33554434 INT_MAX_def)
  ultimately show ?thesis by simp
qed

subsection \<open>What the generator stores\<close>

lemma trig_interp_NaN_at_point:
  assumes "int (length wt) = wsize" and "npoints \<le> int (length pts)"
    and "k < nat npoints" and "0 \<le> sample (pts ! k)" and "sample (pts ! k) < wsize"
  shows "\<exists>w. trig_interp wt wsize pts npoints = Inr w \<and> length w = nat wsize \<and>
    w ! nat (sample (pts ! k)) = NaN"
proof -
  let ?i = "nat (sample (pts ! k))"
  have i: "?i < nat wsize" "int ?i = sample (pts ! k)"
    using assms(4,5) by simp_all
  have "interp_sum (int ?i) wsize pts npoints = NaN"
    by (rule interp_sum_at_point [OF assms(3)]) (use assms(4) i in simp_all)
  with i(1) show ?thesis
    by (simp add: trig_interp_result [OF assms(1,2)] hard_limit_NaN)
qed

lemma trig_interp_samples:
  assumes "trig_interp wt wsize pts npoints = Inr w" and "int (length wt) = wsize"
    and "i < nat wsize"
  shows "w ! i = NaN \<or> (\<exists>a. w ! i = Fin a \<and> - 1 \<le> a \<and> a \<le> 1)"
proof -
  from assms(1) have "npoints \<le> int (length pts) \<or> wsize \<le> 0"
    by (auto simp: trig_interp_def split: if_splits)
  with assms(3) have "npoints \<le> int (length pts)" by auto
  from trig_interp_result [OF assms(2) this] assms(1,3)
  have "w ! i = hard_limit (interp_sum (int i) wsize pts npoints)" by auto
  then show ?thesis using hard_limit_range by simp
qed

lemma randwave_generate_NaN_at_zero:
  assumes "3 \<le> tableSize" and "tableSize \<le> 2 ^ 23"
    and "0 \<le> interiorCount" and "interiorCount \<le> tableSize - 2"
  shows "\<exists>x' log.
    randwave_generate x (Fin (of_int tableSize)) (Fin (of_int interiorCount)) rng =
      Inr (x', log) \<and>
    wavetable_size x' = tableSize \<and> length (wavetable x') = nat tableSize \<and>
    phase x' = phase x \<and>
    sample (points x' ! 0) = 0 \<and> wavetable x' ! 0 = NaN"
proof -
  let ?np = "interiorCount + 2"
  have v: "3 \<le> tableSize" "2 \<le> ?np" "?np \<le> tableSize" "0 \<le> tableSize"
    using assms by simp_all
  from randwave_generate_int_args [OF v(4) assms(2) assms(1) assms(3,4), of rng x]
  obtain pts where cp: "control_points tableSize ?np rng = Inr pts"
    and run: "randwave_generate x (Fin (of_int tableSize)) (Fin (of_int interiorCount)) rng =
      Inr (x\<lparr>points := pts, num_points := ?np,
             wavetable := map (\<lambda>i. hard_limit (interp_sum (int i) tableSize pts ?np))
                            [0..<nat tableSize],
             wavetable_size := tableSize, generated := True\<rparr>,
           Generating #
           (if interiorCount \<le> 0 then [Invalid_num_points 4] else []) @
           point_messages pts ?np @ [Waveform_generated])"
    by blast
  from control_points_valid [OF v(1-3), of rng] cp
  have first: "pts ! 0 = \<lparr>sample = 0, amplitude = Fin 0\<rparr>" by auto
  have "interp_sum 0 tableSize pts ?np = NaN"
    by (rule interp_sum_at_point [of 0]) (use v first in simp_all)
  then have "map (\<lambda>i. hard_limit (interp_sum (int i) tableSize pts ?np))
                            [0..<nat tableSize] ! 0 = NaN"
    using v by (simp add: hard_limit_NaN)
  with run first show ?thesis by simp
qed

text \<open>
  Claim C1. The claim is that the table's value at the position of every control
  point is the point's amplitude. At such a position the angle difference is 0, the
  cardinal function divides 0 by 0, and the NaN stays in the sum and passes the
  limiter: for a table of 8 samples and the points \<open>(0, 0)\<close>, \<open>(3, 1/2)\<close>,
  \<open>(5, -1/4)\<close>, \<open>(7, 0)\<close> the interpolator stores a NaN at 0, 3, 5 and 7.
\<close>

theorem trig_interp_misses_control_points:
  "\<exists>w. trig_interp (replicate 8 (Fin 0)) 8
          [\<lparr>sample = 0, amplitude = Fin 0\<rparr>, \<lparr>sample = 3, amplitude = Fin (1 / 2)\<rparr>,
           \<lparr>sample = 5, amplitude = Fin (- 1 / 4)\<rparr>, \<lparr>sample = 7, amplitude = Fin 0\<rparr>] 4
        = Inr w \<and>
       w ! 0 = NaN \<and> w ! 3 = NaN \<and> w ! 5 = NaN \<and> w ! 7 = NaN"
proof -
  let ?pts = "[\<lparr>sample = 0, amplitude = Fin 0\<rparr>, \<lparr>sample = 3, amplitude = Fin (1 / 2)\<rparr>,
           \<lparr>sample = 5, amplitude = Fin (- 1 / 4)\<rparr>, \<lparr>sample = 7, amplitude = Fin 0\<rparr>]"
  have r: "trig_interp (replicate 8 (Fin 0)) 8 ?pts 4 =
      Inr (map (\<lambda>i. hard_limit (interp_sum (int i) 8 ?pts 4)) [0..<nat 8])"
    by (rule trig_interp_result) simp_all
  have "interp_sum 0 8 ?pts 4 = NaN" by (rule interp_sum_at_point [of 0]) simp_all
  moreover have "interp_sum 3 8 ?pts 4 = NaN" by (rule interp_sum_at_point [of 1]) simp_all
  moreover have "interp_sum 5 8 ?pts 4 = NaN" by (rule interp_sum_at_point [of 2]) simp_all
  moreover have "interp_sum 7 8 ?pts 4 = NaN" by (rule interp_sum_at_point [of 3]) simp_all
  ultimately show ?thesis
    unfolding r by (simp add: hard_limit_NaN)
qed

text \<open>
  Claim C3. The claim is that every sample of a generated table lies between -1 and
  1. The limiter compares, and a comparison with a NaN is false: the default call
  \<open>generate(2048, 4)\<close> succeeds and stores a NaN at index 0, the position of the
  first point, whatever \<^verbatim>\<open>rand()\<close> returns.
\<close>

theorem randwave_generate_stores_NaN:
  "\<exists>x' log. randwave_generate x (Fin 2048) (Fin 4) rng = Inr (x', log) \<and>
     length (wavetable x') = 2048 \<and> wavetable x' ! 0 = NaN \<and>
     \<not> (fle (Fin (- 1)) (wavetable x' ! 0) \<and> fle (wavetable x' ! 0) (Fin 1))"
  using randwave_generate_NaN_at_zero [of 2048 4 x rng]
  by fastforce

text \<open>
  Claim C4. The claim is that an interior count that is not positive, or exceeds
  the table size minus 2, is replaced by the default 4, for 6 points in all. The
  source prints the diagnostic, assigns 6 and then assigns the requested count plus
  2: \<open>generate(6, 0)\<close> ends with 2 points, \<open>generate(6, 7)\<close> sorts 7 elements of an
  array of 4, and \<open>generate(6, -5)\<close> allocates a negative number of points.
\<close>

theorem randwave_generate_keeps_invalid_count:
  "(\<exists>x' log. randwave_generate x (Fin 6) (Fin 0) rng = Inr (x', log) \<and>
      num_points x' = 2 \<and> length (points x') = 2 \<and> Invalid_num_points 4 \<in> set log) \<and>
   randwave_generate x (Fin 6) (Fin 7) rng = Inl OutOfBounds \<and>
   randwave_generate x (Fin 6) (Fin (- 5)) rng = Inl BadAlloc"
proof -
  from randwave_generate_int_args [of 6 0 rng x]
  obtain pts where cp: "control_points 6 2 rng = Inr pts"
    and run: "randwave_generate x (Fin 6) (Fin 0) rng =
      Inr (x\<lparr>points := pts, num_points := 2,
             wavetable := map (\<lambda>i. hard_limit (interp_sum (int i) 6 pts 2)) [0..<nat 6],
             wavetable_size := 6, generated := True\<rparr>,
           Generating # [Invalid_num_points 4] @ point_messages pts 2 @ [Waveform_generated])"
    by auto
  from control_points_valid [of 6 2 rng] cp have "length pts = 2" by auto
  with run have "\<exists>x' log. randwave_generate x (Fin 6) (Fin 0) rng = Inr (x', log) \<and>
      num_points x' = 2 \<and> length (points x') = 2 \<and> Invalid_num_points 4 \<in> set log"
    by simp
  moreover have "randwave_generate x (Fin 6) (Fin 7) rng = Inl OutOfBounds"
    by (simp add: randwave_generate_def Let_def control_points_def split_def
        INT_MIN_def INT_MAX_def)
  moreover have "randwave_generate x (Fin 6) (Fin (- 5)) rng = Inl BadAlloc"
    by (simp add: randwave_generate_def Let_def control_points_def INT_MIN_def INT_MAX_def)
  ultimately show ?thesis by blast
qed

text \<open>
  Claim C8. The claim is that every call with a negative table size prints the
  diagnostic, produces a table of 2048 samples and does not fail. This holds for
  \<open>generate(-5, 4)\<close>. Since an invalid interior count is kept (claim C4),
  \<open>generate(-5, -3)\<close> allocates a negative number of points and
  \<open>generate(-5, 3000)\<close> sorts 3000 elements of an array of 2046.
\<close>

theorem randwave_generate_negative_size:
  "randwave_generate x (Fin (- 5)) (Fin (- 3)) rng = Inl BadAlloc \<and>
   randwave_generate x (Fin (- 5)) (Fin 3000) rng = Inl OutOfBounds \<and>
   (\<exists>x' log. randwave_generate x (Fin (- 5)) (Fin 4) rng = Inr (x', log) \<and>
      wavetable_size x' = 2048 \<and> length (wavetable x') = 2048 \<and>
      Invalid_sample_count 2048 \<in> set log)"
proof -
  have "randwave_generate x (Fin (- 5)) (Fin (- 3)) rng = Inl BadAlloc"
    by (simp add: randwave_generate_def Let_def control_points_def
        DEFAULT_WAVETABLE_SIZE_def INT_MIN_def INT_MAX_def)
  moreover have "randwave_generate x (Fin (- 5)) (Fin 3000) rng = Inl OutOfBounds"
    by (simp add: randwave_generate_def Let_def control_points_def split_def
        DEFAULT_WAVETABLE_SIZE_def INT_MIN_def INT_MAX_def)
  moreover from randwave_generate_runs_size [of "- 5" 2048 4 6 6 x rng]
  have "\<exists>x' log. randwave_generate x (Fin (- 5)) (Fin 4) rng = Inr (x', log) \<and>
      wavetable_size x' = 2048 \<and> length (wavetable x') = 2048 \<and>
      Invalid_sample_count 2048 \<in> set log"
    by fastforce
  ultimately show ?thesis by blast
qed

lemma randwave_perform_stale_phase:
  assumes "0 < n" and "int (length (wavetable x)) \<le> phase x"
    and "base_sample_increment (wavetable_size x) n = Inr base"
  shows "randwave_perform x frequency n = Some (Inl OutOfBounds)"
proof -
  from assms(1) obtain m where "nat n = Suc m" by (cases "nat n") auto
  with assms show ?thesis
    by (simp add: randwave_perform_def)
qed

text \<open>
  Claim C9. The claim is that \<^verbatim>\<open>generate\<close> brings the phase back into the new
  table. The source does not write the phase: after \<open>generate(100, 4)\<close> and a block
  of 64 samples the phase is 28; \<open>generate(10, 4)\<close> leaves it at 28 with a table of
  10 samples, and the next block reads outside the table.
\<close>

theorem randwave_generate_keeps_stale_phase:
  "\<exists>x1 log1 out x2 x3 log3.
     randwave_generate randwave_new (Fin 100) (Fin 4) rng = Inr (x1, log1) \<and>
     randwave_perform x1 frequency 64 = Some (Inr (out, x2)) \<and>
     phase x2 = 28 \<and>
     randwave_generate x2 (Fin 10) (Fin 4) rng' = Inr (x3, log3) \<and>
     wavetable_size x3 = 10 \<and> length (wavetable x3) = 10 \<and> phase x3 = 28 \<and>
     randwave_perform x3 frequency' 64 = Some (Inl OutOfBounds)"
proof -
  from randwave_generate_NaN_at_zero [of 100 4 randwave_new rng]
  obtain x1 log1 where g1: "randwave_generate randwave_new (Fin 100) (Fin 4) rng = Inr (x1, log1)"
    and x1: "wavetable_size x1 = 100" "length (wavetable x1) = 100" "phase x1 = 0"
    by (auto simp: randwave_new_def)
  have base: "\<lceil>real_of_int 100 / real_of_int 64\<rceil> = (2::int)"
    by (simp add: ceiling_eq_iff)
  have b1: "base_sample_increment 100 64 = Inr 2"
    using base_sample_increment_small [of 100 64] base by simp
  have p1: "randwave_perform x1 frequency 64 =
    Some (Inr (map (\<lambda>k. wavetable x1 ! nat ((phase x1 + int k * 2) mod wavetable_size x1))
                 [0..<nat 64],
               x1\<lparr>phase := (phase x1 + 64 * 2) mod wavetable_size x1\<rparr>))"
    by (rule randwave_perform_in_range) (simp_all add: x1 b1)
  define x2 where "x2 = x1\<lparr>phase := (phase x1 + 64 * 2) mod wavetable_size x1\<rparr>"
  have ph2: "phase x2 = 28" by (simp add: x2_def x1)
  from randwave_generate_NaN_at_zero [of 10 4 x2 rng']
  obtain x3 log3 where g3: "randwave_generate x2 (Fin 10) (Fin 4) rng' = Inr (x3, log3)"
    and x3: "wavetable_size x3 = 10" "length (wavetable x3) = 10" "phase x3 = 28"
    by (auto simp: ph2)
  have "\<lceil>real_of_int 10 / real_of_int 64\<rceil> = (1::int)"
    by (simp add: ceiling_eq_iff)
  then have b3: "base_sample_increment 10 64 = Inr 1"
    using base_sample_increment_small [of 10 64] by simp
  have p3: "randwave_perform x3 frequency' 64 = Some (Inl OutOfBounds)"
    by (rule randwave_perform_stale_phase [where base = 1]) (simp_all add: x3 b3)
  from g1 p1 ph2 g3 x3 p3 show ?thesis
    unfolding x2_def [symmetric] by blast
qed

end
